theory Spec2Isabelle
  imports Main "HOL-Library.AList"
begin

section \<open>Python text\<close>

text \<open>
  A Python \<open>str\<close> is modelled as a \<open>string\<close>: a list of characters, each a code point
  below 256 (ASCII and Latin-1). \<open>ord\<close>, \<open>str.strip\<close>, \<open>str.lower\<close>, \<open>str.upper\<close> and
  \<open>str.split\<close> are written out for these code points.
\<close>

definition py_ord :: "char \<Rightarrow> int" where
  "py_ord c = of_char c"

text \<open>\<open>str.isspace\<close> on one character: tab to carriage return, the four separators
  28 to 31, the space, NEL and the no-break space.\<close>

definition py_isspace :: "char \<Rightarrow> bool" where
  "py_isspace c =
     (let n = py_ord c
      in (9 \<le> n \<and> n \<le> 13) \<or> (28 \<le> n \<and> n \<le> 32) \<or> n = 133 \<or> n = 160)"

definition py_strip :: "string \<Rightarrow> string" where
  "py_strip s = rev (dropWhile py_isspace (rev (dropWhile py_isspace s)))"

text \<open>\<open>str.lower\<close>: the letters A to Z and the Latin-1 capitals (192 to 222 except the
  multiplication sign 215) move up by 32.\<close>

definition py_lower_char :: "char \<Rightarrow> char" where
  "py_lower_char c =
     (let n = py_ord c
      in if (65 \<le> n \<and> n \<le> 90) \<or> (192 \<le> n \<and> n \<le> 222 \<and> n \<noteq> 215)
         then char_of (n + 32) else c)"

definition py_lower :: "string \<Rightarrow> string" where
  "py_lower s = map py_lower_char s"

text \<open>
  \<open>str.upper\<close> does not stay below 256: the sharp s becomes \<open>SS\<close>, the micro sign
  becomes the Greek capital mu (924) and y with diaeresis becomes 376. The only use the
  program makes of an upper-cased text is to read the \<open>ord\<close> of each of its characters,
  so \<open>py_upper_ords\<close> gives the code points of \<open>s.upper()\<close>.
\<close>

definition upper_ords :: "char \<Rightarrow> int list" where
  "upper_ords c =
     (let n = py_ord c
      in if (97 \<le> n \<and> n \<le> 122) \<or> (224 \<le> n \<and> n \<le> 254 \<and> n \<noteq> 247) then [n - 32]
         else if n = 223 then [83, 83]
         else if n = 181 then [924]
         else if n = 255 then [376]
         else [n])"

definition py_upper_ords :: "string \<Rightarrow> int list" where
  "py_upper_ords s = concat (map upper_ords s)"

text \<open>\<open>s.split(sep)\<close> for a one-character separator: always at least one piece.\<close>

fun py_split :: "char \<Rightarrow> string \<Rightarrow> string list" where
  "py_split sep [] = [[]]"
| "py_split sep (c # cs) =
     (if c = sep then [] # py_split sep cs
      else (case py_split sep cs of
              [] \<Rightarrow> [[c]]
            | p # ps \<Rightarrow> (c # p) # ps))"

datatype error = ValueError | IndexError | KeyError | ReError | WriteError

section \<open>Column letters\<close>

text \<open>\<open>column_letter_to_index\<close> (the same function in both scripts).\<close>

definition column_letter_to_index :: "string \<Rightarrow> int" where
  "column_letter_to_index col_letter =
     foldl (\<lambda>result char. result * 26 + (char - 65 + 1)) 0 (py_upper_ords col_letter) - 1"

text \<open>The \<open>while temp > 0\<close> loop of \<open>column_index_to_letter\<close>.\<close>

function index_to_letter_loop :: "int \<Rightarrow> string \<Rightarrow> string" where
  "index_to_letter_loop temp letter =
     (if temp > 0
      then index_to_letter_loop ((temp - 1) div 26) (char_of ((temp - 1) mod 26 + 65) # letter)
      else letter)"
  by pat_completeness auto
termination
  by (relation "measure (\<lambda>(temp, letter). nat temp)") auto

definition column_index_to_letter :: "int \<Rightarrow> string" where
  "column_index_to_letter col_index = index_to_letter_loop (col_index + 1) []"

section \<open>Column specifications\<close>

text \<open>
  The body of the \<open>for part in parts\<close> loop of \<open>parse_column_range\<close>, with the set
  \<open>columns\<close> passed along. Unpacking \<open>part.split(':')\<close> into two names raises
  \<open>ValueError\<close> unless there are exactly two pieces.
\<close>

fun parse_parts :: "string list \<Rightarrow> int set \<Rightarrow> error + int set" where
  "parse_parts [] columns = Inr columns"
| "parse_parts (part # parts) columns =
     (if CHR '':'' \<in> set part
      then (case py_split CHR '':'' part of
              [start_col, end_col] \<Rightarrow>
                (let start_idx = column_letter_to_index (py_strip start_col);
                     end_idx = column_letter_to_index (py_strip end_col)
                 in parse_parts parts (columns \<union> set [start_idx..end_idx]))
            | _ \<Rightarrow> Inl ValueError)
      else parse_parts parts (insert (column_letter_to_index part) columns))"

text \<open>\<open>parse_column_range\<close>: \<open>None\<close> is Python's \<open>None\<close>, for the argument and for the
  result.\<close>

definition parse_column_range :: "string option \<Rightarrow> error + int list option" where
  "parse_column_range column_spec =
     (case column_spec of
        None \<Rightarrow> Inr None
      | Some s \<Rightarrow>
          if s = [] then Inr None
          else (case parse_parts (map py_strip (py_split CHR '','' s)) {} of
                  Inl e \<Rightarrow> Inl e
                | Inr columns \<Rightarrow> Inr (Some (sorted_list_of_set columns))))"

section \<open>Worksheet cells\<close>

text \<open>
  The value of a cell as the automation layer hands it over: \<open>None\<close> for an empty
  cell, a text, or any other value (a number, a boolean, a date), which the program only
  tests for truth and renders with \<open>str\<close>; \<open>VOther b t\<close> is such a value, true when
  \<open>b\<close> holds and rendered as \<open>t\<close>.
\<close>

datatype cell_value = VNone | VStr string | VOther bool string

fun truthy :: "cell_value \<Rightarrow> bool" where
  "truthy VNone = False"
| "truthy (VStr s) = (s \<noteq> [])"
| "truthy (VOther b t) = b"

fun py_str :: "cell_value \<Rightarrow> string" where
  "py_str VNone = ''None''"
| "py_str (VStr s) = s"
| "py_str (VOther b t) = t"

text \<open>
  The used range of a sheet: its shape, the sheet row number of its first row, the cell
  values by zero-based row and column, and the cells that refuse a write (a protected sheet
  that could not be unprotected). \<open>reads\<close> and \<open>writes\<close> log the cells whose value the
  program has read and has written, in order. A written value is read back as written.
\<close>

record used_range =
  nrows :: nat
  ncols :: nat
  first_row :: nat
  cell :: "nat \<Rightarrow> nat \<Rightarrow> cell_value"
  locked :: "nat \<Rightarrow> nat \<Rightarrow> bool"
  reads :: "(nat \<times> nat) list"
  writes :: "(nat \<times> nat) list"

text \<open>Indexing a range with \<open>[row, col]\<close>: a negative index counts from the end, and an
  index outside the shape raises \<open>IndexError\<close>.\<close>

definition norm_index :: "nat \<Rightarrow> int \<Rightarrow> error + nat" where
  "norm_index n i =
     (let j = (if i < 0 then i + int n else i)
      in if j < 0 \<or> int n \<le> j then Inl IndexError else Inr (nat j))"

definition get_item :: "used_range \<Rightarrow> int \<Rightarrow> int \<Rightarrow> error + nat \<times> nat" where
  "get_item g row col =
     (case norm_index (nrows g) row of
        Inl e \<Rightarrow> Inl e
      | Inr r \<Rightarrow> (case norm_index (ncols g) col of
                    Inl e \<Rightarrow> Inl e
                  | Inr c \<Rightarrow> Inr (r, c)))"

definition read_value :: "used_range \<Rightarrow> nat \<times> nat \<Rightarrow> cell_value \<times> used_range" where
  "read_value g pos = (cell g (fst pos) (snd pos), g\<lparr>reads := reads g @ [pos]\<rparr>)"

definition write_value :: "used_range \<Rightarrow> nat \<times> nat \<Rightarrow> cell_value \<Rightarrow> error + used_range" where
  "write_value g pos v =
     (if locked g (fst pos) (snd pos) then Inl WriteError
      else Inr (g\<lparr>cell := (cell g)(fst pos := (cell g (fst pos))(snd pos := v)),
                  writes := writes g @ [pos]\<rparr>))"

text \<open>An unprotected range with the given rows of cell values, nothing read or written yet.\<close>

definition sheet_of :: "cell_value list list \<Rightarrow> used_range" where
  "sheet_of rows =
     \<lparr>nrows = length rows,
      ncols = (case rows of [] \<Rightarrow> 0 | r # rs \<Rightarrow> length r),
      first_row = 1,
      cell = (\<lambda>r c. if r < length rows \<and> c < length (rows ! r) then rows ! r ! c else VNone),
      locked = (\<lambda>r c. False),
      reads = [],
      writes = []\<rparr>"

section \<open>Counters\<close>

text \<open>
  A Python \<open>dict\<close> from texts to counts, in insertion order: \<open>d[k] = v\<close> is
  \<open>AList.update k v d\<close>, and \<open>d[k] += n\<close> raises \<open>KeyError\<close> when \<open>k\<close> is missing.
\<close>

type_synonym counts = "(string \<times> int) list"

definition dict_add :: "counts \<Rightarrow> string \<Rightarrow> int \<Rightarrow> error + counts" where
  "dict_add d k n =
     (case map_of d k of
        None \<Rightarrow> Inl KeyError
      | Some v \<Rightarrow> Inr (AList.update k (v + n) d))"

section \<open>Case-insensitive substitution\<close>

text \<open>
  \<open>re.compile(re.escape(find_text), flags=re.IGNORECASE).subn(replace_text, value)\<close>.
  The escaped pattern matches \<open>find_text\<close> literally; two characters match without
  regard to case when their lower-case forms agree. The matches are taken from left to
  right without overlap. The replacement text is a template of the \<open>re\<close> module: the
  module's template expansion is the parameter \<open>tm\<close>, which gives for a replacement text
  either \<open>None\<close> (the module rejects the template with \<open>re.error\<close>) or the function
  from the matched text to the text put in its place. \<open>plain_template\<close> is the expansion
  of a template without backslash: the text itself.
\<close>

type_synonym template = "string \<Rightarrow> (string \<Rightarrow> string) option"

definition plain_template :: template where
  "plain_template replace_text = Some (\<lambda>matched. replace_text)"

definition ci_prefix :: "string \<Rightarrow> string \<Rightarrow> bool" where
  "ci_prefix p s = (length p \<le> length s \<and> py_lower (take (length p) s) = py_lower p)"

function subn_scan :: "string \<Rightarrow> (string \<Rightarrow> string) \<Rightarrow> string \<Rightarrow> string \<times> int" where
  "subn_scan p e [] = ([], 0)"
| "subn_scan p e (c # cs) =
     (if p \<noteq> [] \<and> ci_prefix p (c # cs)
      then (case subn_scan p e (drop (length p) (c # cs)) of
              (r, n) \<Rightarrow> (e (take (length p) (c # cs)) @ r, n + 1))
      else (case subn_scan p e cs of (r, n) \<Rightarrow> (c # r, n)))"
  by pat_completeness auto
termination
  by (relation "measure (\<lambda>(p, e, s). length s)") auto

text \<open>The empty pattern matches before every character and at the end.\<close>

fun subn_empty :: "(string \<Rightarrow> string) \<Rightarrow> string \<Rightarrow> string \<times> int" where
  "subn_empty e [] = (e [], 1)"
| "subn_empty e (c # cs) = (case subn_empty e cs of (r, n) \<Rightarrow> (e [] @ c # r, n + 1))"

definition subn :: "template \<Rightarrow> string \<Rightarrow> string \<Rightarrow> string \<Rightarrow> error + string \<times> int" where
  "subn tm find_text replace_text s =
     (case tm replace_text of
        None \<Rightarrow> Inl ReError
      | Some e \<Rightarrow> Inr (if find_text = [] then subn_empty e s else subn_scan find_text e s))"

section \<open>The find/replace engine\<close>

text \<open>
  The loop over the compiled patterns inside \<open>process_chunk\<close>, for one cell. An
  exception leaves the loop; the counts added so far stay in \<open>chunk_replacements\<close>.
\<close>

fun apply_patterns ::
  "template \<Rightarrow> (string \<times> string) list \<Rightarrow> string \<Rightarrow> bool \<Rightarrow> counts \<Rightarrow>
   (error + string \<times> bool) \<times> counts" where
  "apply_patterns tm [] cell_value modified chunk_replacements =
     (Inr (cell_value, modified), chunk_replacements)"
| "apply_patterns tm ((find_text, replace_text) # patterns) cell_value modified
       chunk_replacements =
     (case subn tm find_text replace_text cell_value of
        Inl e \<Rightarrow> (Inl e, chunk_replacements)
      | Inr (new_value, num_subs) \<Rightarrow>
          if num_subs > 0
          then (case dict_add chunk_replacements find_text num_subs of
                  Inl e \<Rightarrow> (Inl e, chunk_replacements)
                | Inr chunk_replacements' \<Rightarrow>
                    apply_patterns tm patterns new_value True chunk_replacements')
          else apply_patterns tm patterns cell_value modified chunk_replacements)"

type_synonym chunk_state = "used_range \<times> counts \<times> nat set"

text \<open>
  The body of the loop over the columns in \<open>process_chunk\<close>: the \<open>try\<close> around one
  cell. Whatever is raised inside is swallowed and the loop goes on with the next cell,
  with the state as it was when the exception was raised.
\<close>

definition process_cell ::
  "template \<Rightarrow> (string \<times> string) list \<Rightarrow> int \<Rightarrow> int \<Rightarrow> chunk_state \<Rightarrow> chunk_state" where
  "process_cell tm compiled_patterns row_idx col_idx st =
     (case st of (g, chunk_replacements, affected_rows) \<Rightarrow>
        (case get_item g row_idx col_idx of
           Inl e \<Rightarrow> st
         | Inr pos \<Rightarrow>
             (case read_value g pos of (cell_value, g1) \<Rightarrow>
                (case cell_value of
                   VStr s \<Rightarrow>
                     if s \<noteq> [] \<and> length (py_strip s) > 0
                     then (case apply_patterns tm compiled_patterns s False chunk_replacements of
                             (Inl e, chunk_replacements') \<Rightarrow> (g1, chunk_replacements', affected_rows)
                           | (Inr (new_value, modified), chunk_replacements') \<Rightarrow>
                               if modified
                               then (case write_value g1 pos (VStr new_value) of
                                       Inl e \<Rightarrow> (g1, chunk_replacements', affected_rows)
                                     | Inr g2 \<Rightarrow>
                                         (g2, chunk_replacements',
                                          insert (first_row g2 + fst pos) affected_rows))
                               else (g1, chunk_replacements', affected_rows))
                     else (g1, chunk_replacements, affected_rows)
                 | _ \<Rightarrow> (g1, chunk_replacements, affected_rows)))))"

text \<open>The columns checked in a row: a restriction that is neither \<open>None\<close> nor the empty
  list is filtered to the indices below \<open>cols\<close>; otherwise the first \<open>min(cols, 108)\<close>
  columns are taken.\<close>

definition columns_to_check :: "int \<Rightarrow> int list option \<Rightarrow> int list" where
  "columns_to_check cols target_column_indices =
     (case target_column_indices of
        Some (i # is) \<Rightarrow> filter (\<lambda>col_idx. col_idx < cols) (i # is)
      | _ \<Rightarrow> [0..min cols 108 - 1])"

definition init_counts :: "(string \<times> string) list \<Rightarrow> counts" where
  "init_counts pairs = fold (\<lambda>(find_text, replace_text). AList.update find_text 0) pairs []"

definition process_chunk ::
  "template \<Rightarrow> used_range \<Rightarrow> int \<Rightarrow> int \<Rightarrow> int \<Rightarrow> (string \<times> string) list \<Rightarrow>
   int list option \<Rightarrow> chunk_state" where
  "process_chunk tm used_range start_row end_row cols compiled_patterns target_column_indices =
     fold (\<lambda>row_idx.
             fold (process_cell tm compiled_patterns row_idx)
               (columns_to_check cols target_column_indices))
       [start_row..end_row - 1]
       (used_range, init_counts compiled_patterns, {})"

text \<open>\<open>for find_text, count in chunk_replacements.items(): replacement_details[find_text] += count\<close>;
  a \<open>KeyError\<close> ends the loop.\<close>

fun add_details :: "counts \<Rightarrow> counts \<Rightarrow> counts" where
  "add_details [] replacement_details = replacement_details"
| "add_details ((find_text, count) # rest) replacement_details =
     (case dict_add replacement_details find_text count of
        Inl e \<Rightarrow> replacement_details
      | Inr replacement_details' \<Rightarrow> add_details rest replacement_details')"

text \<open>\<open>range(0, rows, chunk_size)\<close> for a positive chunk size.\<close>

definition chunk_starts :: "int \<Rightarrow> int \<Rightarrow> int list" where
  "chunk_starts rows chunk_size =
     map (\<lambda>k. int k * chunk_size) [0..<nat ((rows + chunk_size - 1) div chunk_size)]"

type_synonym sheet_state = "used_range \<times> int \<times> counts"

definition chunk_step ::
  "template \<Rightarrow> (string \<times> string) list \<Rightarrow> int \<Rightarrow> int \<Rightarrow> int list option \<Rightarrow> int \<Rightarrow>
   int \<Rightarrow> sheet_state \<Rightarrow> sheet_state" where
  "chunk_step tm replacement_pairs rows cols target_column_indices chunk_size start_row st =
     (case st of (g, total_replacements, replacement_details) \<Rightarrow>
        (let end_row = min (start_row + chunk_size) rows
         in case process_chunk tm g start_row end_row cols replacement_pairs
                   target_column_indices of
              (g', chunk_replacements, affected_rows) \<Rightarrow>
                if chunk_replacements \<noteq> []
                then (g', total_replacements + sum_list (map snd chunk_replacements),
                      add_details chunk_replacements replacement_details)
                else (g', total_replacements, replacement_details)))"

text \<open>\<open>process_sheet_in_chunks\<close>. The progress messages with their chunk counters and
  the row heights set at its end are display only and are left out; the result is the range
  after the scan, the total and the counts by find text.\<close>

definition process_sheet_in_chunks ::
  "template \<Rightarrow> used_range \<Rightarrow> (string \<times> string) list \<Rightarrow> int \<Rightarrow> int \<Rightarrow> int list option \<Rightarrow>
   sheet_state" where
  "process_sheet_in_chunks tm used_range replacement_pairs rows cols target_column_indices =
     (let chunk_size = (if rows > 100000 then 500 else if rows > 10000 then 1000 else 5000)
      in fold (chunk_step tm replacement_pairs rows cols target_column_indices chunk_size)
           (chunk_starts rows chunk_size)
           (used_range, 0, init_counts replacement_pairs))"

text \<open>
  \<open>process_sheet_intelligently\<close>. The sheet is given by its used range, \<open>None\<close> when
  the sheet has none. An exception of the column-spec parser reaches the outer
  \<open>except\<close>, which returns \<open>0, {}\<close>.
\<close>

definition process_sheet_intelligently ::
  "template \<Rightarrow> used_range option \<Rightarrow> (string \<times> string) list \<Rightarrow> string option \<Rightarrow>
   used_range option \<times> int \<times> counts" where
  "process_sheet_intelligently tm sheet replacement_pairs target_columns =
     (case (case target_columns of
              None \<Rightarrow> Inr None
            | Some t \<Rightarrow> if t = [] then Inr None else parse_column_range target_columns) of
        Inl e \<Rightarrow> (sheet, 0, [])
      | Inr column_indices \<Rightarrow>
          (case sheet of
             None \<Rightarrow> (None, 0, [])
           | Some used_range \<Rightarrow>
               (let rows = int (nrows used_range);
                    cols = int (ncols used_range);
                    rows_to_process = min rows 300;
                    cols = (case column_indices of
                              Some (i # is) \<Rightarrow> min cols (Max (set (i # is)) + 1)
                            | _ \<Rightarrow> cols)
                in case process_sheet_in_chunks tm used_range replacement_pairs
                          rows_to_process cols column_indices of
                     (g, total_replacements, replacement_details) \<Rightarrow>
                       (Some g, total_replacements, replacement_details))))"

section \<open>Sequential replacement, in the spec's words\<close>


definition matches_of :: "string \<Rightarrow> (string \<times> string) list \<Rightarrow> int list \<Rightarrow> int" where
  "matches_of k pairs ns =
     sum_list (map snd (filter (\<lambda>(find_text, n). find_text = k) (zip (map fst pairs) ns)))"

section \<open>The rule engine\<close>

text \<open>
  A rule as \<open>main\<close> hands it to \<open>process_sheet_with_rules\<close>. The two columns are
  texts; \<open>r_search_value\<close> and \<open>r_target_value\<close> stand for the \<open>str\<close> rendering
  of the configured values; a rule without the key \<open>name\<close> has \<open>r_name = None\<close>.
\<close>

record rule =
  r_name :: "string option"
  r_search_column :: string
  r_search_value :: string
  r_update_column :: string
  r_target_value :: string

record grouped_rule =
  gr_name :: string
  gr_search_value :: string
  gr_target_value :: string

type_synonym rule_groups = "((string \<times> string) \<times> grouped_rule list) list"

definition add_rule :: "rule \<Rightarrow> rule_groups \<Rightarrow> rule_groups" where
  "add_rule r grouped_rules =
     (let key = (r_search_column r, r_update_column r);
          entry = \<lparr>gr_name = (case r_name r of None \<Rightarrow> ''Unnamed rule'' | Some n \<Rightarrow> n),
                   gr_search_value = py_lower (py_strip (r_search_value r)),
                   gr_target_value = r_target_value r\<rparr>
      in AList.update key
           ((case map_of grouped_rules key of None \<Rightarrow> [] | Some rule_group \<Rightarrow> rule_group)
              @ [entry])
           grouped_rules)"

type_synonym lookup = "(string \<times> string \<times> string) list"

type_synonym rule_state = "used_range \<times> int \<times> counts \<times> nat set"

text \<open>\<open>str(current_value) if current_value is not None else ""\<close>\<close>

definition cell_text :: "cell_value \<Rightarrow> string" where
  "cell_text current_value = (case current_value of VNone \<Rightarrow> [] | _ \<Rightarrow> py_str current_value)"

text \<open>The body of the single pass over the rows: the \<open>try\<close> around one row.\<close>

definition process_rule_row :: "lookup \<Rightarrow> int \<Rightarrow> int \<Rightarrow> int \<Rightarrow> rule_state \<Rightarrow> rule_state" where
  "process_rule_row lookup search_col_idx update_col_idx row_idx st =
     (case st of (g, total_updates, update_details, all_affected_rows) \<Rightarrow>
        (case get_item g row_idx search_col_idx of
           Inl e \<Rightarrow> st
         | Inr search_cell \<Rightarrow>
             (case read_value g search_cell of (search_cell_value, g1) \<Rightarrow>
                if \<not> truthy search_cell_value
                then (g1, total_updates, update_details, all_affected_rows)
                else
                  (let normalized_search = py_lower (py_strip (py_str search_cell_value))
                   in case map_of lookup normalized_search of
                        None \<Rightarrow> (g1, total_updates, update_details, all_affected_rows)
                      | Some (target_value, rule_name) \<Rightarrow>
                          (case get_item g1 row_idx update_col_idx of
                             Inl e \<Rightarrow> (g1, total_updates, update_details, all_affected_rows)
                           | Inr update_cell \<Rightarrow>
                               (case read_value g1 update_cell of (current_value, g2) \<Rightarrow>
                                  (let current_value_str = cell_text current_value
                                   in if py_strip current_value_str \<noteq> py_strip target_value
                                      then (case write_value g2 update_cell (VStr target_value) of
                                              Inl e \<Rightarrow>
                                                (g2, total_updates, update_details,
                                                 all_affected_rows)
                                            | Inr g3 \<Rightarrow>
                                                (case dict_add update_details rule_name 1 of
                                                   Inl e \<Rightarrow>
                                                     (g3, total_updates, update_details,
                                                      all_affected_rows)
                                                 | Inr update_details' \<Rightarrow>
                                                     (g3, total_updates + 1, update_details',
                                                      insert (nat row_idx + 1)
                                                        all_affected_rows)))
                                      else (g2, total_updates, update_details,
                                            all_affected_rows))))))))"

text \<open>One turn of the loop over the column pairs: the lookup dictionary is built, the
  counter of every rule of the group is set to zero, and the rows are passed once.\<close>

definition process_group ::
  "int \<Rightarrow> (string \<times> string) \<times> grouped_rule list \<Rightarrow> rule_state \<Rightarrow> rule_state" where
  "process_group rows_to_process item st =
     (case item of ((search_col, update_col), rule_group) \<Rightarrow>
        (case st of (g, total_updates, update_details, all_affected_rows) \<Rightarrow>
           (let search_col_idx = column_letter_to_index search_col;
                update_col_idx = column_letter_to_index update_col;
                lookup = fold (\<lambda>r. AList.update (gr_search_value r)
                                       (gr_target_value r, gr_name r)) rule_group [];
                update_details = fold (\<lambda>r. AList.update (gr_name r) 0) rule_group update_details
            in fold (process_rule_row lookup search_col_idx update_col_idx)
                 [0..rows_to_process - 1]
                 (g, total_updates, update_details, all_affected_rows))))"

text \<open>\<open>process_sheet_with_rules\<close>, without the row heights set at its end.\<close>

definition process_sheet_with_rules ::
  "used_range option \<Rightarrow> rule list \<Rightarrow> int \<Rightarrow> used_range option \<times> int \<times> counts" where
  "process_sheet_with_rules sheet rules max_rows_to_process =
     (case sheet of
        None \<Rightarrow> (None, 0, [])
      | Some used_range \<Rightarrow>
          (let rows = int (nrows used_range);
               rows_to_process = min rows max_rows_to_process;
               grouped_rules = fold add_rule rules []
           in case fold (process_group rows_to_process) grouped_rules (used_range, 0, [], {}) of
                (g, total_updates, update_details, all_affected_rows) \<Rightarrow>
                  (Some g, total_updates, update_details)))"

section \<open>Which sheets are processed\<close>











section \<open>Column order\<close>

text \<open>
  A valid column letter sequence, in the spec's sense: one or more capital letters A to Z.
  Spreadsheet column order puts a shorter sequence first and orders sequences of the same
  length letter by letter (A, B, ..., Z, AA, AB, ...).
\<close>

definition valid_letters :: "string \<Rightarrow> bool" where
  "valid_letters L = (L \<noteq> [] \<and> list_all (\<lambda>c. 65 \<le> py_ord c \<and> py_ord c \<le> 90) L)"

fun lex_less :: "string \<Rightarrow> string \<Rightarrow> bool" where
  "lex_less (a # as) (b # bs) = (py_ord a < py_ord b \<or> (a = b \<and> lex_less as bs))"
| "lex_less _ _ = False"

definition column_order_less :: "string \<Rightarrow> string \<Rightarrow> bool" where
  "column_order_less L M = (length L < length M \<or> (length L = length M \<and> lex_less L M))"

text \<open>The accumulation loop of \<open>column_letter_to_index\<close>, from any start value.\<close>

definition letters_value :: "int \<Rightarrow> int list \<Rightarrow> int" where
  "letters_value acc xs = foldl (\<lambda>result char. result * 26 + (char - 65 + 1)) acc xs"

text \<open>Invariants of the loops of the find/replace engine: the keys of the counters of
  a chunk, and the total being the sum of the counts by find text.\<close>

definition keys_are :: "string list \<Rightarrow> chunk_state \<Rightarrow> bool" where
  "keys_are ks st = (case st of (g, cr, ar) \<Rightarrow> map fst cr = ks)"

definition total_is_sum :: "string list \<Rightarrow> sheet_state \<Rightarrow> bool" where
  "total_is_sum ks st =
     (case st of (g, total_replacements, replacement_details) \<Rightarrow>
        total_replacements = sum_list (map snd replacement_details) \<and>
        map fst replacement_details = ks)"

section \<open>Cells addressed by a scan\<close>

text \<open>
  The cells that the indices of a scan address: \<open>addressed g row_idx col_idx\<close> holds the
  cell that \<open>used_range[row_idx, col_idx]\<close> gives, and nothing when the indexing raises.
  \<open>scanned L U g g'\<close> relates a range before and after a scan: the shape and the
  protection are the same, every cell of \<open>L\<close> has been read, whatever has been read or
  written lies in \<open>U\<close>, and the cells outside \<open>U\<close> hold what they held.
\<close>

definition addressed :: "used_range \<Rightarrow> int \<Rightarrow> int \<Rightarrow> (nat \<times> nat) set" where
  "addressed g row_idx col_idx =
     (case get_item g row_idx col_idx of Inl e \<Rightarrow> {} | Inr pos \<Rightarrow> {pos})"

definition cells_addressed :: "used_range \<Rightarrow> int list \<Rightarrow> int list \<Rightarrow> (nat \<times> nat) set" where
  "cells_addressed g rows cols =
     (\<Union>row_idx\<in>set rows. \<Union>col_idx\<in>set cols. addressed g row_idx col_idx)"

definition scanned :: "(nat \<times> nat) set \<Rightarrow> (nat \<times> nat) set \<Rightarrow> used_range \<Rightarrow> used_range \<Rightarrow> bool" where
  "scanned L U g g' \<longleftrightarrow>
     nrows g' = nrows g \<and> ncols g' = ncols g \<and> first_row g' = first_row g \<and>
     locked g' = locked g \<and>
     (\<forall>r c. (r, c) \<notin> U \<longrightarrow> cell g' r c = cell g r c) \<and>
     set (reads g) \<union> L \<subseteq> set (reads g') \<and> set (reads g') \<subseteq> set (reads g) \<union> U \<and>
     set (writes g) \<subseteq> set (writes g') \<and> set (writes g') \<subseteq> set (writes g) \<union> U"



text \<open>The name under which a rule is counted, and the invariants of the loops of the rule
  engine: the total being the sum of the counts by rule name.\<close>

definition rule_name_of :: "rule \<Rightarrow> string" where
  "rule_name_of r = (case r_name r of None \<Rightarrow> ''Unnamed rule'' | Some n \<Rightarrow> n)"

definition updates_are_sum :: "string set \<Rightarrow> rule_state \<Rightarrow> bool" where
  "updates_are_sum ks st =
     (case st of (g, total_updates, update_details, all_affected_rows) \<Rightarrow>
        total_updates = sum_list (map snd update_details) \<and>
        fst ` set update_details = ks)"

definition groups_from :: "rule set \<Rightarrow> rule_groups \<Rightarrow> bool" where
  "groups_from R grouped_rules \<longleftrightarrow>
     distinct (map fst grouped_rules) \<and>
     (\<forall>item\<in>set grouped_rules. \<forall>e\<in>set (snd item).
        \<exists>r\<in>R. (r_search_column r, r_update_column r) = fst item \<and>
               gr_name e = rule_name_of r)"

chapter \<open>Properties\<close>

section \<open>Column letters: round trip and order\<close>

lemma letters_value_simps [simp]:
  "letters_value acc [] = acc"
  "letters_value acc (x # xs) = letters_value (acc * 26 + (x - 64)) xs"
  "letters_value acc (xs @ [x]) = letters_value acc xs * 26 + (x - 64)"
  by (simp_all add: letters_value_def)

lemma column_letter_to_index_value:
  "column_letter_to_index s = letters_value 0 (py_upper_ords s) - 1"
  by (simp add: column_letter_to_index_def letters_value_def)

lemma upper_ords_capital:
  "65 \<le> py_ord c \<Longrightarrow> py_ord c \<le> 90 \<Longrightarrow> upper_ords c = [py_ord c]"
  by (simp add: upper_ords_def Let_def)

lemma py_upper_ords_capitals:
  "list_all (\<lambda>c. 65 \<le> py_ord c \<and> py_ord c \<le> 90) L \<Longrightarrow> py_upper_ords L = map py_ord L"
  by (induction L) (simp_all add: py_upper_ords_def upper_ords_capital)

lemma letters_value_nonneg:
  "0 \<le> acc \<Longrightarrow> list_all (\<lambda>c. 65 \<le> py_ord c \<and> py_ord c \<le> 90) L \<Longrightarrow>
   0 \<le> letters_value acc (map py_ord L)"
  by (induction L arbitrary: acc) simp_all

lemma index_to_letter_loop_step:
  assumes "0 \<le> v" "65 \<le> py_ord c" "py_ord c \<le> 90"
  shows "index_to_letter_loop (v * 26 + (py_ord c - 64)) acc = index_to_letter_loop v (c # acc)"
proof -
  let ?t = "v * 26 + (py_ord c - 64)"
  have pos: "?t > 0" using assms by simp
  have e: "?t - 1 = (py_ord c - 65) + 26 * v" by simp
  have d: "(?t - 1) div 26 = v" unfolding e using assms by simp
  have m: "(?t - 1) mod 26 = py_ord c - 65" unfolding e using assms by simp
  have ch: "char_of (py_ord c - 65 + 65) = c" by (simp add: py_ord_def)
  show ?thesis
    by (subst index_to_letter_loop.simps) (simp only: pos d m ch if_True)
qed

lemma index_to_letter_loop_value:
  "list_all (\<lambda>c. 65 \<le> py_ord c \<and> py_ord c \<le> 90) L \<Longrightarrow>
   index_to_letter_loop (letters_value 0 (map py_ord L)) acc = L @ acc"
proof (induction L arbitrary: acc rule: rev_induct)
  case Nil
  show ?case by (subst index_to_letter_loop.simps) simp
next
  case (snoc c L)
  then have all: "list_all (\<lambda>c. 65 \<le> py_ord c \<and> py_ord c \<le> 90) L"
    and c: "65 \<le> py_ord c" "py_ord c \<le> 90" by simp_all
  have nn: "0 \<le> letters_value 0 (map py_ord L)"
    using letters_value_nonneg [OF _ all, of 0] by simp
  show ?case
    using index_to_letter_loop_step [OF nn c, of acc] snoc.IH [OF all, of "c # acc"]
    by simp
qed

lemma roundtrip: "valid_letters L \<Longrightarrow> column_index_to_letter (column_letter_to_index L) = L"
  using index_to_letter_loop_value [of L "[]"]
  by (simp add: valid_letters_def column_index_to_letter_def column_letter_to_index_value
      py_upper_ords_capitals)

lemma letters_value_acc:
  "letters_value acc xs = acc * 26 ^ length xs + letters_value 0 xs"
proof (induction xs arbitrary: acc)
  case Nil
  show ?case by simp
next
  case (Cons x xs)
  have "letters_value acc (x # xs) =
        (acc * 26 + (x - 64)) * 26 ^ length xs + letters_value 0 xs"
    using Cons.IH [of "acc * 26 + (x - 64)"] by simp
  moreover have "letters_value 0 (x # xs) = (x - 64) * 26 ^ length xs + letters_value 0 xs"
    using Cons.IH [of "x - 64"] by simp
  ultimately show ?case by (simp add: algebra_simps)
qed

lemma letters_value_bounds:
  "list_all (\<lambda>c. 65 \<le> py_ord c \<and> py_ord c \<le> 90) L \<Longrightarrow>
   26 ^ length L - 1 \<le> 25 * letters_value 0 (map py_ord L) \<and>
   25 * letters_value 0 (map py_ord L) \<le> 26 * 26 ^ length L - 26"
proof (induction L rule: rev_induct)
  case Nil
  show ?case by simp
next
  case (snoc c L)
  then have IH: "26 ^ length L - 1 \<le> 25 * letters_value 0 (map py_ord L)"
      "25 * letters_value 0 (map py_ord L) \<le> 26 * (26 ^ length L - 1)"
    and c: "65 \<le> py_ord c" "py_ord c \<le> 90" by simp_all
  show ?case using IH c by simp
qed

lemma lex_less_value:
  "length L = length M \<Longrightarrow> lex_less L M \<Longrightarrow>
   list_all (\<lambda>c. 65 \<le> py_ord c \<and> py_ord c \<le> 90) L \<Longrightarrow>
   list_all (\<lambda>c. 65 \<le> py_ord c \<and> py_ord c \<le> 90) M \<Longrightarrow>
   letters_value 0 (map py_ord L) < letters_value 0 (map py_ord M)"
proof (induction L M rule: list_induct2)
  case Nil
  then show ?case by simp
next
  case (Cons a as b bs)
  have as: "list_all (\<lambda>c. 65 \<le> py_ord c \<and> py_ord c \<le> 90) as"
    and bs: "list_all (\<lambda>c. 65 \<le> py_ord c \<and> py_ord c \<le> 90) bs"
    using Cons.prems by simp_all
  let ?p = "(26::int) ^ length bs"
  let ?va = "letters_value 0 (map py_ord as)"
  let ?vb = "letters_value 0 (map py_ord bs)"
  have va: "letters_value 0 (map py_ord (a # as)) = (py_ord a - 64) * ?p + ?va"
    using letters_value_acc [of "py_ord a - 64" "map py_ord as"] Cons.hyps by simp
  have vb: "letters_value 0 (map py_ord (b # bs)) = (py_ord b - 64) * ?p + ?vb"
    using letters_value_acc [of "py_ord b - 64" "map py_ord bs"] by simp
  from Cons.prems(1) consider "py_ord a < py_ord b" | "a = b" "lex_less as bs" by auto
  then show ?case
  proof cases
    case 1
    define X where "X = (py_ord a - 64) * ?p"
    define Y where "Y = (py_ord b - 64) * ?p"
    have ba: "25 * ?va \<le> 26 * ?p - 26"
      using letters_value_bounds [OF as] Cons.hyps by simp
    have bb: "?p - 1 \<le> 25 * ?vb"
      using letters_value_bounds [OF bs] by simp
    have "(py_ord a - 64 + 1) * ?p \<le> (py_ord b - 64) * ?p"
      using 1 by (intro mult_right_mono) simp_all
    then have "X + ?p \<le> Y"
      unfolding X_def Y_def by (simp only: distrib_right mult_1)
    with ba bb have "X + ?va < Y + ?vb" by linarith
    then show ?thesis unfolding va vb X_def Y_def .
  next
    case 2
    with Cons.IH as bs show ?thesis unfolding va vb by simp
  qed
qed

lemma shorter_value:
  assumes "length L < length M"
    and L: "list_all (\<lambda>c. 65 \<le> py_ord c \<and> py_ord c \<le> 90) L"
    and M: "list_all (\<lambda>c. 65 \<le> py_ord c \<and> py_ord c \<le> 90) M"
  shows "letters_value 0 (map py_ord L) < letters_value 0 (map py_ord M)"
proof -
  have "(26::int) ^ Suc (length L) \<le> 26 ^ length M"
    using assms(1) by (intro power_increasing) simp_all
  then have "26 * (26::int) ^ length L \<le> 26 ^ length M" by simp
  moreover have "25 * letters_value 0 (map py_ord L) \<le> 26 * 26 ^ length L - 26"
    using letters_value_bounds [OF L] by simp
  moreover have "26 ^ length M - 1 \<le> 25 * letters_value 0 (map py_ord M)"
    using letters_value_bounds [OF M] by simp
  ultimately show ?thesis by linarith
qed

text \<open>
  Claim C3. For every valid column letter sequence \<open>L\<close> (one or more capitals),
  converting \<open>L\<close> to its zero-based index and back gives \<open>L\<close> again, and the
  conversion to an index is strictly increasing in spreadsheet column order: whenever
  \<open>L\<close> comes before \<open>M\<close> (shorter first, then letter by letter), the index of
  \<open>L\<close> is below the index of \<open>M\<close>.
\<close>

theorem column_letters_roundtrip_and_order:
  "(valid_letters L \<longrightarrow> column_index_to_letter (column_letter_to_index L) = L) \<and>
   (valid_letters L \<and> valid_letters M \<and> column_order_less L M \<longrightarrow>
      column_letter_to_index L < column_letter_to_index M)"
proof (intro conjI impI)
  assume "valid_letters L"
  then show "column_index_to_letter (column_letter_to_index L) = L" by (rule roundtrip)
next
  assume a: "valid_letters L \<and> valid_letters M \<and> column_order_less L M"
  then have L: "list_all (\<lambda>c. 65 \<le> py_ord c \<and> py_ord c \<le> 90) L"
    and M: "list_all (\<lambda>c. 65 \<le> py_ord c \<and> py_ord c \<le> 90) M"
    by (simp_all add: valid_letters_def)
  from a have "letters_value 0 (map py_ord L) < letters_value 0 (map py_ord M)"
    using shorter_value [OF _ L M] lex_less_value [OF _ _ L M]
    by (auto simp: column_order_less_def)
  then show "column_letter_to_index L < column_letter_to_index M"
    by (simp add: column_letter_to_index_value py_upper_ords_capitals L M)
qed

theorem column_letters_roundtrip_and_order_witness:
  "valid_letters ''AZ'' \<and> valid_letters ''BA'' \<and> column_order_less ''AZ'' ''BA'' \<and>
   column_index_to_letter (column_letter_to_index ''AZ'') = ''AZ'' \<and>
   column_letter_to_index ''AZ'' < column_letter_to_index ''BA''"
proof -
  have v: "valid_letters ''AZ''" "valid_letters ''BA''"
    by (simp_all add: valid_letters_def py_ord_def)
  have o: "column_order_less ''AZ'' ''BA''"
    by (simp add: column_order_less_def py_ord_def)
  show ?thesis
    using column_letters_roundtrip_and_order [of "''AZ''" "''BA''"] v o by blast
qed

section \<open>The column-spec parser\<close>

lemma length_py_split: "length (py_split sep s) = Suc (count_list s sep)"
  by (induction s) (auto split: list.splits)

lemma count_list_pos_iff: "0 < count_list s c \<longleftrightarrow> c \<in> set s"
  by (induction s) auto

lemma count_list_dropWhile: "\<not> P c \<Longrightarrow> count_list (dropWhile P s) c = count_list s c"
  by (induction s) auto

lemma count_list_rev_eq: "count_list (rev s) c = count_list s c"
  by (induction s) auto

lemma colon_not_space: "\<not> py_isspace CHR '':''"
  by (simp add: py_isspace_def py_ord_def)

lemma count_colon_py_strip: "count_list (py_strip s) CHR '':'' = count_list s CHR '':''"
  by (simp add: py_strip_def count_list_rev_eq count_list_dropWhile colon_not_space)

lemma py_split_two_iff:
  "(\<exists>a b. py_split sep s = [a, b]) \<longleftrightarrow> count_list s sep = 1"
proof -
  have "(\<exists>a b. py_split sep s = [a, b]) \<longleftrightarrow> length (py_split sep s) = 2"
    by (auto simp: length_Suc_conv numeral_2_eq_2)
  then show ?thesis by (simp add: length_py_split)
qed

lemma parse_parts_error_iff:
  "parse_parts parts columns = Inl e \<longleftrightarrow>
   e = ValueError \<and> (\<exists>part\<in>set parts. 2 \<le> count_list part CHR '':'')"
proof (induction parts arbitrary: columns)
  case Nil
  show ?case by simp
next
  case (Cons part parts)
  show ?case
  proof (cases "count_list part CHR '':'' = 0")
    case True
    then have "CHR '':'' \<notin> set part" using count_list_pos_iff [of part "CHR '':''"] by simp
    with True show ?thesis by (simp add: Cons.IH)
  next
    case False
    then have mem: "CHR '':'' \<in> set part" using count_list_pos_iff [of part "CHR '':''"] by simp
    show ?thesis
    proof (cases "count_list part CHR '':'' = 1")
      case True
      then obtain a b where ab: "py_split CHR '':'' part = [a, b]"
        using py_split_two_iff [of "CHR '':''" part] by blast
      with mem True show ?thesis by (simp add: Cons.IH Let_def)
    next
      case ne1: False
      with False have two: "2 \<le> count_list part CHR '':''" by simp
      have "\<not> (\<exists>a b. py_split CHR '':'' part = [a, b])"
        using py_split_two_iff [of "CHR '':''" part] ne1 by simp
      then have "(case py_split CHR '':'' part of
              [start_col, end_col] \<Rightarrow>
                (let start_idx = column_letter_to_index (py_strip start_col);
                     end_idx = column_letter_to_index (py_strip end_col)
                 in parse_parts parts (columns \<union> set [start_idx..end_idx]))
            | _ \<Rightarrow> Inl ValueError) = Inl ValueError"
        by (auto split: list.splits)
      with mem two show ?thesis by auto
    qed
  qed
qed

text \<open>
  Claim C1, as amended. The column-spec parser has no \<open>MalformedColumnSpec\<close> error
  and checks no character. It raises exactly when some comma-separated part holds two or
  more colons, and what it raises then is the \<open>ValueError\<close> of the failed unpacking;
  on every other argument, whatever its characters and also with an empty range part, it
  returns a result.
\<close>

theorem parse_column_range_raises_iff:
  "(parse_column_range column_spec = Inl e \<longleftrightarrow>
      e = ValueError \<and>
      (\<exists>s. column_spec = Some s \<and>
         (\<exists>part\<in>set (py_split CHR '','' s). 2 \<le> count_list part CHR '':''))) \<and>
   ((\<exists>r. parse_column_range column_spec = Inr r) \<longleftrightarrow>
      (\<forall>s. column_spec = Some s \<longrightarrow>
         (\<forall>part\<in>set (py_split CHR '','' s). count_list part CHR '':'' \<le> 1)))"
proof -
  have split_empty: "\<not> (\<exists>part\<in>set (py_split CHR '','' []). 2 \<le> count_list part CHR '':'')"
    by simp
  have A: "parse_column_range column_spec = Inl e \<longleftrightarrow>
      e = ValueError \<and>
      (\<exists>s. column_spec = Some s \<and>
         (\<exists>part\<in>set (py_split CHR '','' s). 2 \<le> count_list part CHR '':''))" for e
  proof (cases column_spec)
    case None
    then show ?thesis by (simp add: parse_column_range_def)
  next
    case (Some s)
    show ?thesis
    proof (cases "s = []")
      case True
      with Some show ?thesis by (simp add: parse_column_range_def)
    next
      case False
      with Some have "parse_column_range column_spec = Inl e \<longleftrightarrow>
          parse_parts (map py_strip (py_split CHR '','' s)) {} = Inl e"
        by (simp add: parse_column_range_def split: sum.splits)
      with Some show ?thesis
        by (simp add: parse_parts_error_iff count_colon_py_strip)
    qed
  qed
  have "(\<exists>r. parse_column_range column_spec = Inr r) \<longleftrightarrow>
        \<not> (\<exists>e. parse_column_range column_spec = Inl e)"
    by (cases "parse_column_range column_spec") simp_all
  also have "\<dots> \<longleftrightarrow> (\<forall>s. column_spec = Some s \<longrightarrow>
         (\<forall>part\<in>set (py_split CHR '','' s). count_list part CHR '':'' \<le> 1))"
  proof -
    have aux: "n < 2 \<longleftrightarrow> n \<le> Suc 0" for n :: nat by arith
    show ?thesis unfolding A by (auto simp: not_le aux)
  qed
  finally show ?thesis using A by blast
qed

theorem parse_column_range_raises_iff_witness:
  "parse_column_range (Some ''A:B:C'') = Inl ValueError \<and>
   (\<exists>r. parse_column_range (Some ''1,A:'') = Inr r)"
  using parse_column_range_raises_iff [of "Some ''A:B:C''" ValueError]
    parse_column_range_raises_iff [of "Some ''1,A:''" ValueError]
  by simp

text \<open>
  Claim C1 as stated fails: the spec \<open>1\<close> holds a character that is no letter, and the
  spec \<open>A:\<close> has an empty range part, yet the parser returns the index lists
  \<open>[-16]\<close> and \<open>[]\<close> instead of failing.
\<close>

theorem parse_column_range_malformed_counterexample:
  "parse_column_range (Some ''1'') = Inr (Some [- 16]) \<and>
   parse_column_range (Some ''A:'') = Inr (Some [])"
  by code_simp

lemma py_split_two_mem: "py_split sep s = [a, b] \<Longrightarrow> sep \<in> set s"
proof -
  assume "py_split sep s = [a, b]"
  then have "count_list s sep = 1" using py_split_two_iff [of sep s] by blast
  then show ?thesis using count_list_pos_iff [of s sep] by simp
qed

text \<open>
  Claim C7. A range part whose start letter converts to a larger index than its end
  letter adds no index to the set of columns and raises nothing: the loop goes on with
  the columns it had. So \<open>C:A\<close> alone parses to the empty list, and \<open>B,C:A\<close> to
  the index of \<open>B\<close> only.
\<close>

theorem reversed_range_is_empty:
  "(py_split CHR '':'' part = [start_col, end_col] \<and>
    column_letter_to_index (py_strip end_col) < column_letter_to_index (py_strip start_col)
    \<longrightarrow> parse_parts (part # parts) columns = parse_parts parts columns) \<and>
   parse_column_range (Some ''C:A'') = Inr (Some []) \<and>
   parse_column_range (Some ''B,C:A'') = Inr (Some [1])"
proof (intro conjI impI)
  assume a: "py_split CHR '':'' part = [start_col, end_col] \<and>
    column_letter_to_index (py_strip end_col) < column_letter_to_index (py_strip start_col)"
  then have "CHR '':'' \<in> set part" using py_split_two_mem by blast
  with a show "parse_parts (part # parts) columns = parse_parts parts columns"
    by (simp add: Let_def)
next
  show "parse_column_range (Some ''C:A'') = Inr (Some [])" by code_simp
next
  show "parse_column_range (Some ''B,C:A'') = Inr (Some [1])" by code_simp
qed

theorem reversed_range_is_empty_witness:
  "py_split CHR '':'' ''C:A'' = [''C'', ''A''] \<and>
   column_letter_to_index (py_strip ''A'') < column_letter_to_index (py_strip ''C'') \<and>
   parse_parts [''C:A'', ''B''] {} = parse_parts [''B''] {}"
proof -
  have s: "py_split CHR '':'' ''C:A'' = [''C'', ''A'']" by simp
  have i: "column_letter_to_index (py_strip ''A'') < column_letter_to_index (py_strip ''C'')"
    by code_simp
  show ?thesis
    using reversed_range_is_empty [of "''C:A''" "''C''" "''A''" "[''B'']" "{}"] s i by blast
qed

text \<open>
  Claim C8. A list returned by the column-spec parser is strictly ascending, hence sorted
  and without duplicates; \<open>A,C:E,G\<close> parses to exactly \<open>[0,2,3,4,6]\<close>; an empty
  or absent spec gives \<open>None\<close> (no restriction), which is another value than the empty
  index list that \<open>C:A\<close> gives.
\<close>

theorem parse_column_range_sorted_distinct:
  "(parse_column_range column_spec = Inr (Some xs) \<longrightarrow> sorted_wrt (<) xs) \<and>
   parse_column_range (Some ''A,C:E,G'') = Inr (Some [0, 2, 3, 4, 6]) \<and>
   parse_column_range (Some ''B,D:F,H'') = Inr (Some [1, 3, 4, 5, 7]) \<and>
   parse_column_range (Some ''A,A:B,B'') = Inr (Some [0, 1]) \<and>
   parse_column_range (Some []) = Inr None \<and>
   parse_column_range None = Inr None \<and>
   parse_column_range (Some ''C:A'') = Inr (Some []) \<and>
   (Inr None :: error + int list option) \<noteq> Inr (Some [])"
proof (intro conjI impI)
  assume "parse_column_range column_spec = Inr (Some xs)"
  then obtain columns where "xs = sorted_list_of_set columns"
    by (auto simp: parse_column_range_def split: option.splits if_splits sum.splits)
  then show "sorted_wrt (<) xs" by simp
next
  show "parse_column_range (Some ''A,C:E,G'') = Inr (Some [0, 2, 3, 4, 6])" by code_simp
next
  show "parse_column_range (Some ''B,D:F,H'') = Inr (Some [1, 3, 4, 5, 7])" by code_simp
next
  show "parse_column_range (Some ''A,A:B,B'') = Inr (Some [0, 1])" by code_simp
next
  show "parse_column_range (Some []) = Inr None" by (simp add: parse_column_range_def)
next
  show "parse_column_range None = Inr None" by (simp add: parse_column_range_def)
next
  show "parse_column_range (Some ''C:A'') = Inr (Some [])" by code_simp
next
  show "(Inr None :: error + int list option) \<noteq> Inr (Some [])" by simp
qed

theorem parse_column_range_sorted_distinct_witness:
  "parse_column_range (Some ''G,C:E,A'') = Inr (Some [0, 2, 3, 4, 6]) \<and>
   sorted_wrt (<) [0, 2, 3, 4, 6 :: int]"
proof -
  have p: "parse_column_range (Some ''G,C:E,A'') = Inr (Some [0, 2, 3, 4, 6])" by code_simp
  show ?thesis
    using parse_column_range_sorted_distinct [of "Some ''G,C:E,A''" "[0, 2, 3, 4, 6]"] p
    by blast
qed

section \<open>Which sheets are processed: properties\<close>








section \<open>The rule engine: one row\<close>

lemma get_item_reads [simp]: "get_item (g\<lparr>reads := x\<rparr>) row col = get_item g row col"
  by (simp add: get_item_def split: sum.splits)

lemma get_item_cell_writes [simp]:
  "get_item (g\<lparr>cell := x, writes := y\<rparr>) row col = get_item g row col"
  by (simp add: get_item_def split: sum.splits)

text \<open>
  Claim C4, as amended. Take a row whose search cell exists and holds a true value, and
  whose update cell exists and accepts a write. If the normalised text of the search
  cell (its \<open>str\<close>, trimmed, in lower case) is a key of the lookup of the rule
  group, with a target value and a rule name whose counter exists, then the update cell
  is overwritten with the target value, that counter and the total go up by one, exactly
  when the trimmed text of the update cell differs from the trimmed target value, letter
  case included; when the two trimmed texts are equal nothing is written or counted. If
  the normalised text is no key of the lookup, whatever keys it contains or is contained
  in, nothing is written or counted: the lookup is on the whole value.
\<close>

theorem rule_row_update:
  assumes "get_item g row_idx search_col_idx = Inr search_cell"
    and "truthy (cell g (fst search_cell) (snd search_cell))"
    and "get_item g row_idx update_col_idx = Inr update_cell"
    and "\<not> locked g (fst update_cell) (snd update_cell)"
    and "map_of update_details rule_name = Some n"
  shows
    "(map_of lookup (py_lower (py_strip (py_str (cell g (fst search_cell) (snd search_cell)))))
        = Some (target_value, rule_name) \<and>
      py_strip (cell_text (cell g (fst update_cell) (snd update_cell))) \<noteq> py_strip target_value
      \<longrightarrow>
      (case process_rule_row lookup search_col_idx update_col_idx row_idx
              (g, total_updates, update_details, all_affected_rows) of
         (g', total_updates', update_details', all_affected_rows') \<Rightarrow>
           cell g' (fst update_cell) (snd update_cell) = VStr target_value \<and>
           writes g' = writes g @ [update_cell] \<and>
           update_details' = AList.update rule_name (n + 1) update_details \<and>
           total_updates' = total_updates + 1)) \<and>
     (map_of lookup (py_lower (py_strip (py_str (cell g (fst search_cell) (snd search_cell)))))
        = Some (target_value, rule_name) \<and>
      py_strip (cell_text (cell g (fst update_cell) (snd update_cell))) = py_strip target_value
      \<longrightarrow>
      (case process_rule_row lookup search_col_idx update_col_idx row_idx
              (g, total_updates, update_details, all_affected_rows) of
         (g', total_updates', update_details', all_affected_rows') \<Rightarrow>
           cell g' = cell g \<and> writes g' = writes g \<and>
           update_details' = update_details \<and> total_updates' = total_updates)) \<and>
     (map_of lookup (py_lower (py_strip (py_str (cell g (fst search_cell) (snd search_cell)))))
        = None
      \<longrightarrow>
      (case process_rule_row lookup search_col_idx update_col_idx row_idx
              (g, total_updates, update_details, all_affected_rows) of
         (g', total_updates', update_details', all_affected_rows') \<Rightarrow>
           cell g' = cell g \<and> writes g' = writes g \<and>
           update_details' = update_details \<and> total_updates' = total_updates))"
  using assms
  by (simp add: process_rule_row_def read_value_def write_value_def dict_add_def Let_def)

theorem rule_row_update_witness:
  "(case process_rule_row [(''x'', ''9.99'', ''price'')] 0 1 0
           (sheet_of [[VStr '' X '', VStr ''ABC''], [VStr ''xy'', VStr ''ABC'']],
            0, [(''price'', 0)], {}) of
      (g', total_updates, update_details, all_affected_rows) \<Rightarrow>
        cell g' 0 1 = VStr ''9.99'' \<and> writes g' = [(0, 1)] \<and>
        update_details = [(''price'', 1)] \<and> total_updates = 1) \<and>
   (case process_rule_row [(''x'', ''9.99'', ''price'')] 0 1 1
           (sheet_of [[VStr '' X '', VStr ''ABC''], [VStr ''xy'', VStr ''ABC'']],
            0, [(''price'', 0)], {}) of
      (g', total_updates, update_details, all_affected_rows) \<Rightarrow>
        cell g' 1 1 = VStr ''ABC'' \<and> writes g' = [] \<and>
        update_details = [(''price'', 0)] \<and> total_updates = 0)"
proof -
  let ?g = "sheet_of [[VStr '' X '', VStr ''ABC''], [VStr ''xy'', VStr ''ABC'']]"
  have s0: "get_item ?g 0 0 = Inr (0, 0)" and u0: "get_item ?g 0 1 = Inr (0, 1)"
    and s1: "get_item ?g 1 0 = Inr (1, 0)" and u1: "get_item ?g 1 1 = Inr (1, 1)"
    by code_simp+
  have t0: "truthy (cell ?g (fst (0, 0)) (snd (0, 0)))"
    and t1: "truthy (cell ?g (fst (1, 0)) (snd (1, 0)))"
    by code_simp+
  have l0: "\<not> locked ?g (fst (0, 1)) (snd (0, 1))"
    and l1: "\<not> locked ?g (fst (1, 1)) (snd (1, 1))"
    by code_simp+
  have d: "map_of [(''price'', 0 :: int)] ''price'' = Some 0" by simp
  have m0: "map_of [(''x'', ''9.99'', ''price'')]
              (py_lower (py_strip (py_str (cell ?g (fst (0, 0)) (snd (0, 0))))))
            = Some (''9.99'', ''price'')"
    and n0: "py_strip (cell_text (cell ?g (fst (0, 1)) (snd (0, 1)))) \<noteq> py_strip ''9.99''"
    and m1: "map_of [(''x'', ''9.99'', ''price'')]
              (py_lower (py_strip (py_str (cell ?g (fst (1, 0)) (snd (1, 0)))))) = None"
    by code_simp+
  have w: "writes ?g = []" by code_simp
  have c: "cell ?g (Suc 0) (Suc 0) = VStr ''ABC''" by code_simp
  note A = rule_row_update [OF s0 t0 u0 l0 d, of "[(''x'', ''9.99'', ''price'')]" "''9.99''" 0 "{}",
      THEN conjunct1, THEN mp, OF conjI [OF m0 n0]]
  note B = rule_row_update [OF s1 t1 u1 l1 d, of "[(''x'', ''9.99'', ''price'')]" _ 0 "{}",
      THEN conjunct2, THEN conjunct2, THEN mp, OF m1]
  from A have A': "case process_rule_row [(''x'', ''9.99'', ''price'')] 0 1 0
                  (?g, 0, [(''price'', 0)], {}) of
      (g', total_updates, update_details, all_affected_rows) \<Rightarrow>
        cell g' 0 1 = VStr ''9.99'' \<and> writes g' = [(0, 1)] \<and>
        update_details = [(''price'', 1)] \<and> total_updates = 1"
    by (simp add: w split: prod.splits)
  from B have B': "case process_rule_row [(''x'', ''9.99'', ''price'')] 0 1 1
                  (?g, 0, [(''price'', 0)], {}) of
      (g', total_updates, update_details, all_affected_rows) \<Rightarrow>
        cell g' 1 1 = VStr ''ABC'' \<and> writes g' = [] \<and>
        update_details = [(''price'', 0)] \<and> total_updates = 0"
    by (simp add: w c split: prod.splits)
  from A' B' show ?thesis by (rule conjI)
qed

text \<open>
  Claim C4 as stated fails. With the target \<open>abc\<close> and an update cell holding
  \<open>ABC\<close>, the normalised (trimmed, lower-case) text of the update cell is the target,
  yet the cell is overwritten and the counter goes up. With the target \<open>abc\<close>
  between two spaces and an update cell holding \<open>abc\<close>, the normalised text of the
  cell differs from the target, yet nothing is written.
\<close>

theorem rule_row_case_sensitive_counterexample:
  "py_lower (py_strip (cell_text (VStr ''ABC''))) = ''abc'' \<and>
   (case process_rule_row [(''x'', ''abc'', ''price'')] 0 1 0
           (sheet_of [[VStr ''x'', VStr ''ABC'']], 0, [(''price'', 0)], {}) of
      (g', total_updates, update_details, all_affected_rows) \<Rightarrow>
        cell g' 0 1 = VStr ''abc'' \<and> writes g' = [(0, 1)] \<and>
        update_details = [(''price'', 1)] \<and> total_updates = 1) \<and>
   py_lower (py_strip (cell_text (VStr ''abc''))) \<noteq> '' abc '' \<and>
   (case process_rule_row [(''x'', '' abc '', ''price'')] 0 1 0
           (sheet_of [[VStr ''x'', VStr ''abc'']], 0, [(''price'', 0)], {}) of
      (g', total_updates, update_details, all_affected_rows) \<Rightarrow>
        cell g' 0 1 = VStr ''abc'' \<and> writes g' = [] \<and>
        update_details = [(''price'', 0)] \<and> total_updates = 0)"
  by code_simp

section \<open>The find/replace engine: one cell\<close>





lemma map_fst_update_present:
  "k \<in> fst ` set d \<Longrightarrow> map fst (AList.update k v d) = map fst d"
  by (induction d) auto

lemma dict_add_present:
  assumes "k \<in> fst ` set d"
  obtains c where "map_of d k = Some c" "dict_add d k n = Inr (AList.update k (c + n) d)"
proof -
  from assms obtain c where "map_of d k = Some c"
    by (metis domD dom_map_of_conv_image_fst)
  then show ?thesis using that by (simp add: dict_add_def)
qed


lemma matches_of_Nil [simp]: "matches_of k [] ns = 0"
  by (simp add: matches_of_def)





lemma py_strip_Nil [simp]: "py_strip [] = []"
  by (simp add: py_strip_def)










section \<open>Totals and counts\<close>

lemma fold_invariant:
  "P s \<Longrightarrow> (\<And>x s. x \<in> set xs \<Longrightarrow> P s \<Longrightarrow> P (f x s)) \<Longrightarrow> P (fold f xs s)"
  by (induction xs arbitrary: s) auto

lemma sum_list_zeros: "\<forall>v\<in>set xs. v = (0::int) \<Longrightarrow> sum_list xs = 0"
  by (induction xs) auto

lemma sum_update_present:
  "map_of d k = Some v \<Longrightarrow>
   sum_list (map snd (AList.update k w d)) = sum_list (map snd d) - v + (w :: int)"
  by (induction d) (auto split: if_splits)

lemma map_of_Some_key: "map_of d k = Some v \<Longrightarrow> k \<in> fst ` set d"
  by (metis domI dom_map_of_conv_image_fst)

lemma dict_add_Inr:
  assumes "dict_add d k n = Inr d'"
  shows "map fst d' = map fst d" and "sum_list (map snd d') = sum_list (map snd d) + n"
proof -
  from assms obtain v where v: "map_of d k = Some v" and d': "d' = AList.update k (v + n) d"
    by (auto simp: dict_add_def split: option.splits)
  show "map fst d' = map fst d"
    unfolding d' by (rule map_fst_update_present [OF map_of_Some_key [OF v]])
  show "sum_list (map snd d') = sum_list (map snd d) + n"
    unfolding d' using sum_update_present [OF v, of "v + n"] by simp
qed

lemma add_details_sum:
  "set (map fst cr) \<subseteq> set (map fst d) \<Longrightarrow>
   map fst (add_details cr d) = map fst d \<and>
   sum_list (map snd (add_details cr d)) = sum_list (map snd d) + sum_list (map snd cr)"
proof (induction cr arbitrary: d)
  case Nil
  show ?case by simp
next
  case (Cons kc cr)
  obtain k c where kc: "kc = (k, c)" by (cases kc)
  from Cons.prems kc have "k \<in> fst ` set d" by auto
  from dict_add_present [OF this, of c] obtain c0 where
    da: "dict_add d k c = Inr (AList.update k (c0 + c) d)" by blast
  let ?d1 = "AList.update k (c0 + c) d"
  from dict_add_Inr [OF da] have k1: "map fst ?d1 = map fst d"
    and s1: "sum_list (map snd ?d1) = sum_list (map snd d) + c" by simp_all
  from Cons.prems k1 have "set (map fst cr) \<subseteq> set (map fst ?d1)" by (simp add: kc)
  from Cons.IH [OF this] k1 s1 show ?case by (simp add: kc da)
qed

lemma apply_patterns_keys:
  "apply_patterns tm pairs v m cr = (res, cr') \<Longrightarrow> map fst cr' = map fst cr"
proof (induction pairs arbitrary: v m cr)
  case Nil
  then show ?case by simp
next
  case (Cons pair pairs)
  obtain f r where pair: "pair = (f, r)" by (cases pair)
  show ?case
  proof (cases "subn tm f r v")
    case (Inl e)
    with Cons.prems show ?thesis by (simp add: pair)
  next
    case (Inr vn)
    obtain v' n where vn: "vn = (v', n)" by (cases vn)
    show ?thesis
    proof (cases "0 < n")
      case True
      show ?thesis
      proof (cases "dict_add cr f n")
        case (Inl e)
        with Cons.prems Inr vn True show ?thesis by (simp add: pair)
      next
        case da: (Inr cr1)
        with Cons.prems Inr vn True have "apply_patterns tm pairs v' True cr1 = (res, cr')"
          by (simp add: pair)
        from Cons.IH [OF this] dict_add_Inr(1) [OF da] show ?thesis by simp
      qed
    next
      case False
      with Cons.prems Inr vn have "apply_patterns tm pairs v m cr = (res, cr')"
        by (simp add: pair)
      from Cons.IH [OF this] show ?thesis .
    qed
  qed
qed

lemma process_cell_keys:
  assumes "process_cell tm pairs row_idx col_idx (g, cr, ar) = (g', cr', ar')"
  shows "map fst cr' = map fst cr"
proof (cases "get_item g row_idx col_idx")
  case (Inl e)
  with assms show ?thesis by (simp add: process_cell_def)
next
  case (Inr pos)
  let ?g1 = "g\<lparr>reads := reads g @ [pos]\<rparr>"
  show ?thesis
  proof (cases "cell g (fst pos) (snd pos)")
    case VNone
    with assms Inr show ?thesis by (simp add: process_cell_def read_value_def)
  next
    case (VOther b t)
    with assms Inr show ?thesis by (simp add: process_cell_def read_value_def)
  next
    case (VStr s)
    show ?thesis
    proof (cases "s \<noteq> [] \<and> py_strip s \<noteq> []")
      case False
      with assms Inr VStr show ?thesis by (simp add: process_cell_def read_value_def)
    next
      case True
      obtain res cr1 where ap: "apply_patterns tm pairs s False cr = (res, cr1)"
        by (cases "apply_patterns tm pairs s False cr")
      from assms Inr VStr True ap have "cr' = cr1"
        by (simp add: process_cell_def read_value_def split: sum.splits prod.splits if_splits)
      with apply_patterns_keys [OF ap] show ?thesis by simp
    qed
  qed
qed

lemma process_cell_keys_are:
  "keys_are ks st \<Longrightarrow> keys_are ks (process_cell tm pairs row_idx col_idx st)"
proof -
  assume a: "keys_are ks st"
  obtain g cr ar where st: "st = (g, cr, ar)" by (cases st)
  obtain g' cr' ar' where r: "process_cell tm pairs row_idx col_idx (g, cr, ar) = (g', cr', ar')"
    by (cases "process_cell tm pairs row_idx col_idx (g, cr, ar)")
  from process_cell_keys [OF r] a st r show ?thesis by (simp add: keys_are_def)
qed

lemma process_chunk_keys:
  "process_chunk tm g start_row end_row cols pairs tci = (g', cr, ar) \<Longrightarrow>
   map fst cr = map fst (init_counts pairs)"
proof -
  assume r: "process_chunk tm g start_row end_row cols pairs tci = (g', cr, ar)"
  let ?P = "keys_are (map fst (init_counts pairs))"
  have row: "?P (fold (process_cell tm pairs row_idx) cs st)" if "?P st" for row_idx cs st
    using that by (rule fold_invariant [where P = ?P]) (rule process_cell_keys_are)
  have "?P (process_chunk tm g start_row end_row cols pairs tci)"
    unfolding process_chunk_def
    by (rule fold_invariant [where P = ?P]) (simp add: keys_are_def, rule row)
  with r show ?thesis by (simp add: keys_are_def)
qed

lemma chunk_step_total_is_sum:
  assumes "total_is_sum (map fst (init_counts pairs)) st"
  shows "total_is_sum (map fst (init_counts pairs))
           (chunk_step tm pairs rows cols tci chunk_size start_row st)"
proof -
  obtain g total_replacements details where st: "st = (g, total_replacements, details)"
    by (cases st)
  let ?end = "min (start_row + chunk_size) rows"
  obtain g' cr ar where pc: "process_chunk tm g start_row ?end cols pairs tci = (g', cr, ar)"
    by (cases "process_chunk tm g start_row ?end cols pairs tci")
  from assms st have inv: "total_replacements = sum_list (map snd details)"
    and keys: "map fst details = map fst (init_counts pairs)"
    by (simp_all add: total_is_sum_def)
  from process_chunk_keys [OF pc] keys have "set (map fst cr) \<subseteq> set (map fst details)"
    by simp
  from add_details_sum [OF this] inv keys show ?thesis
    by (simp add: chunk_step_def st pc Let_def total_is_sum_def)
qed

text \<open>
  In the find/replace engine the total is the sum of the counts by find text, for every
  sheet, every list of pairs and every column restriction.
\<close>

lemma find_replace_total_is_sum:
  "process_sheet_in_chunks tm g pairs rows cols tci = (g', total_replacements, details) \<Longrightarrow>
   total_replacements = sum_list (map snd details)"
proof -
  assume r: "process_sheet_in_chunks tm g pairs rows cols tci = (g', total_replacements, details)"
  have z: "sum_list (map snd (init_counts pairs)) = 0"
  proof -
    have "\<forall>v\<in>snd ` set (fold (\<lambda>(find_text, replace_text). AList.update find_text 0) ps d). v = 0"
      if "\<forall>v\<in>snd ` set d. v = (0::int)" for ps :: "(string \<times> string) list" and d
      using that
    proof (induction ps arbitrary: d)
      case Nil
      then show ?case by simp
    next
      case (Cons p ps)
      obtain f r where p: "p = (f, r)" by (cases p)
      have "\<forall>v\<in>snd ` set (AList.update f 0 d). v = 0"
        using Cons.prems by (induction d) auto
      from Cons.IH [OF this] show ?case by (simp add: p)
    qed
    from this [of "[]" pairs] have "\<forall>v\<in>set (map snd (init_counts pairs)). v = 0"
      by (simp add: init_counts_def)
    then show ?thesis by (rule sum_list_zeros)
  qed
  have "total_is_sum (map fst (init_counts pairs))
          (process_sheet_in_chunks tm g pairs rows cols tci)"
    unfolding process_sheet_in_chunks_def Let_def
    by (rule fold_invariant [where P = "total_is_sum (map fst (init_counts pairs))"])
      (simp add: total_is_sum_def z, rule chunk_step_total_is_sum)
  with r show ?thesis by (simp add: total_is_sum_def)
qed

lemma find_replace_sheet_total_is_sum:
  assumes "process_sheet_intelligently tm sheet pairs target_columns =
             (sheet', total_replacements, details)"
  shows "total_replacements = sum_list (map snd details)"
proof -
  let ?parsed = "(case target_columns of
              None \<Rightarrow> Inr None
            | Some t \<Rightarrow> if t = [] then Inr None else parse_column_range target_columns)"
  show ?thesis
  proof (cases ?parsed)
    case (Inl e)
    with assms show ?thesis by (simp add: process_sheet_intelligently_def)
  next
    case (Inr column_indices)
    show ?thesis
    proof (cases sheet)
      case None
      with assms Inr show ?thesis by (simp add: process_sheet_intelligently_def)
    next
      case (Some used_range)
      with assms Inr obtain g rows cols where
        "process_sheet_in_chunks tm used_range pairs rows cols column_indices =
           (g, total_replacements, details)"
        by (auto simp: process_sheet_intelligently_def Let_def split: prod.splits)
      then show ?thesis by (rule find_replace_total_is_sum)
    qed
  qed
qed

text \<open>
  Claim C10. For the rule engine the claim asks that the total of a sheet be the sum of
  the counts by rule name. Here the code is evaluated on a sheet with one row, \<open>x\<close> in
  column A and \<open>y\<close> in column C, and two rules without a name, one from column A to
  column B and one from column C to column D. Both rules update a cell, the total is 2, and
  the only counter, that of \<open>Unnamed rule\<close>, is 1: the second column pair has set it
  back to zero before its pass.
\<close>

theorem rule_engine_total_differs_from_sum:
  "(case process_sheet_with_rules
           (Some (sheet_of [[VStr ''x'', VNone, VStr ''y'', VNone]]))
           [\<lparr>r_name = None, r_search_column = ''A'', r_search_value = ''x'',
              r_update_column = ''B'', r_target_value = ''1''\<rparr>,
            \<lparr>r_name = None, r_search_column = ''C'', r_search_value = ''y'',
              r_update_column = ''D'', r_target_value = ''2''\<rparr>]
           300 of
      (sheet', total_updates, update_details) \<Rightarrow>
        total_updates = 2 \<and> update_details = [(''Unnamed rule'', 1)] \<and>
        sum_list (map snd update_details) = 1)"
  by code_simp

section \<open>Scans of the find/replace engine\<close>

lemma scanned_refl: "scanned {} {} g g"
  by (simp add: scanned_def)

lemma scanned_trans:
  "scanned L1 U1 g g' \<Longrightarrow> scanned L2 U2 g' g'' \<Longrightarrow> scanned (L1 \<union> L2) (U1 \<union> U2) g g''"
  unfolding scanned_def by (intro conjI) (simp_all, blast+)

lemma addressed_shape:
  "nrows g' = nrows g \<Longrightarrow> ncols g' = ncols g \<Longrightarrow> addressed g' row_idx col_idx = addressed g row_idx col_idx"
  by (simp add: addressed_def get_item_def split: sum.splits)

lemma scanned_addressed:
  "scanned L U g g' \<Longrightarrow> addressed g' row_idx col_idx = addressed g row_idx col_idx"
  by (rule addressed_shape) (simp_all add: scanned_def)

lemma fold_scanned:
  assumes step: "\<And>x st. scanned (L (fst st) x) (U (fst st) x) (fst st) (fst (f x st))"
    and shape: "\<And>g g' x. nrows g' = nrows g \<Longrightarrow> ncols g' = ncols g \<Longrightarrow>
                  L g' x = L g x \<and> U g' x = U g x"
  shows "scanned (\<Union>x\<in>set xs. L (fst st) x) (\<Union>x\<in>set xs. U (fst st) x)
           (fst st) (fst (fold f xs st))"
proof (induction xs arbitrary: st)
  case Nil
  show ?case by (simp add: scanned_refl)
next
  case (Cons x xs)
  have s1: "scanned (L (fst st) x) (U (fst st) x) (fst st) (fst (f x st))" by (rule step)
  then have sh: "nrows (fst (f x st)) = nrows (fst st)" "ncols (fst (f x st)) = ncols (fst st)"
    by (simp_all add: scanned_def)
  have eq: "L (fst (f x st)) y = L (fst st) y" "U (fst (f x st)) y = U (fst st) y" for y
    using shape [OF sh] by simp_all
  from Cons.IH [of "f x st"] have
    "scanned (\<Union>y\<in>set xs. L (fst st) y) (\<Union>y\<in>set xs. U (fst st) y)
       (fst (f x st)) (fst (fold f xs (f x st)))"
    by (simp add: eq)
  from scanned_trans [OF s1 this] show ?case by simp
qed

lemma process_cell_scanned:
  "scanned (addressed (fst st) row_idx col_idx) (addressed (fst st) row_idx col_idx)
     (fst st) (fst (process_cell tm pairs row_idx col_idx st))"
proof -
  obtain g cr ar where st: "st = (g, cr, ar)" by (cases st)
  show ?thesis
  proof (cases "get_item g row_idx col_idx")
    case (Inl e)
    then show ?thesis by (simp add: st process_cell_def addressed_def scanned_refl)
  next
    case (Inr pos)
    let ?g1 = "g\<lparr>reads := reads g @ [pos]\<rparr>"
    have g1: "scanned {pos} {pos} g ?g1" by (auto simp: scanned_def)
    have g2: "scanned {pos} {pos} g g2" if "write_value ?g1 pos v = Inr g2" for v g2
      using that by (auto simp: write_value_def scanned_def split: if_splits)
    have "fst (process_cell tm pairs row_idx col_idx st) = ?g1 \<or>
          (\<exists>v. write_value ?g1 pos v = Inr (fst (process_cell tm pairs row_idx col_idx st)))"
      by (auto simp: st process_cell_def Inr read_value_def
          split: cell_value.splits prod.splits sum.splits)
    with g1 g2 show ?thesis by (auto simp: st addressed_def Inr)
  qed
qed

lemma process_row_scanned:
  "scanned (\<Union>col_idx\<in>set cl. addressed (fst st) row_idx col_idx)
           (\<Union>col_idx\<in>set cl. addressed (fst st) row_idx col_idx)
     (fst st) (fst (fold (process_cell tm pairs row_idx) cl st))"
proof -
  let ?A = "\<lambda>g col_idx. addressed g row_idx col_idx"
  show ?thesis
  proof (rule fold_scanned [where L = ?A and U = ?A and f = "process_cell tm pairs row_idx"
          and xs = cl and st = st])
    show "scanned (addressed (fst st') row_idx x) (addressed (fst st') row_idx x) (fst st')
            (fst (process_cell tm pairs row_idx x st'))" for x st'
      by (rule process_cell_scanned)
    show "addressed g' row_idx x = addressed g row_idx x \<and>
          addressed g' row_idx x = addressed g row_idx x"
      if "nrows g' = nrows g" "ncols g' = ncols g" for g g' x
      by (simp add: addressed_shape [OF that])
  qed
qed

lemma process_chunk_scanned:
  "scanned (cells_addressed g [start_row..end_row - 1] (columns_to_check cols tci))
           (cells_addressed g [start_row..end_row - 1] (columns_to_check cols tci))
     g (fst (process_chunk tm g start_row end_row cols pairs tci))"
proof -
  let ?cl = "columns_to_check cols tci"
  let ?A = "\<lambda>g row_idx. \<Union>col_idx\<in>set ?cl. addressed g row_idx col_idx"
  let ?f = "\<lambda>row_idx. fold (process_cell tm pairs row_idx) ?cl"
  let ?st = "(g, init_counts pairs, {}) :: chunk_state"
  have "scanned (\<Union>row_idx\<in>set [start_row..end_row - 1]. ?A (fst ?st) row_idx)
          (\<Union>row_idx\<in>set [start_row..end_row - 1]. ?A (fst ?st) row_idx)
          (fst ?st) (fst (fold ?f [start_row..end_row - 1] ?st))"
  proof (rule fold_scanned [where L = ?A and U = ?A and f = ?f
          and xs = "[start_row..end_row - 1]" and st = ?st])
    show "scanned (?A (fst st') x) (?A (fst st') x) (fst st') (fst (?f x st'))" for x st'
      by (rule process_row_scanned)
    show "?A g' x = ?A g x \<and> ?A g' x = ?A g x"
      if "nrows g' = nrows g" "ncols g' = ncols g" for g g' x
      by (simp add: addressed_shape [OF that])
  qed
  then show ?thesis by (simp add: process_chunk_def cells_addressed_def)
qed



lemma cells_addressed_rows:
  "cells_addressed g rows cl = (\<Union>row_idx\<in>set rows. cells_addressed g [row_idx] cl)"
  by (simp add: cells_addressed_def)




section \<open>Scans of the rule engine\<close>







section \<open>The effective columns of a chunk\<close>

lemma norm_index_Inr:
  "norm_index n i = Inr j \<Longrightarrow> j < n \<and> int j = (if i < 0 then i + int n else i)"
  by (auto simp: norm_index_def Let_def split: if_splits)

lemma get_item_Inr:
  assumes "get_item g row_idx col_idx = Inr (r, c)"
  shows "r < nrows g" and "c < ncols g"
    and "int r = (if row_idx < 0 then row_idx + int (nrows g) else row_idx)"
    and "int c = (if col_idx < 0 then col_idx + int (ncols g) else col_idx)"
  using assms norm_index_Inr [of "nrows g" row_idx r] norm_index_Inr [of "ncols g" col_idx c]
  by (auto simp: get_item_def split: sum.splits)


lemma addressed_iff:
  "pos \<in> addressed g row_idx col_idx \<longleftrightarrow> get_item g row_idx col_idx = Inr pos"
  by (cases "get_item g row_idx col_idx") (auto simp: addressed_def)

lemma cells_addressed_iff:
  "pos \<in> cells_addressed g rows cl \<longleftrightarrow>
   (\<exists>row_idx\<in>set rows. \<exists>col_idx\<in>set cl. get_item g row_idx col_idx = Inr pos)"
  by (simp add: cells_addressed_def addressed_iff)

lemma cells_addressed_column:
  assumes "(r, c) \<in> cells_addressed g rows cl"
  shows "\<exists>col_idx\<in>set cl. int c = (if col_idx < 0 then col_idx + int (ncols g) else col_idx)"
proof -
  from assms obtain row_idx col_idx where "col_idx \<in> set cl"
    and "get_item g row_idx col_idx = Inr (r, c)"
    by (auto simp: cells_addressed_iff)
  with get_item_Inr(4) show ?thesis by blast
qed


text \<open>
  Claim C9, as amended. In a chunk the find/replace engine reads exactly the cells that
  the rows of the chunk and the indices of its effective column list address, writes only
  such cells, and leaves every other cell as it was. An index of the list that is not
  negative addresses the column of that number; a negative one counts from the last
  column of the used range. The effective column list is the restriction filtered to the
  indices below the available column count when the restriction is a list that is not
  empty, and the first \<open>min(cols, 108)\<close> columns when the restriction is absent or is
  the empty list.
\<close>

theorem process_chunk_effective_columns:
  "(case process_chunk tm g start_row end_row cols pairs target_column_indices of
      (g', chunk_replacements, affected_rows) \<Rightarrow>
        set (reads g') =
          set (reads g) \<union>
          cells_addressed g [start_row..end_row - 1]
            (columns_to_check cols target_column_indices) \<and>
        set (writes g') \<subseteq>
          set (writes g) \<union>
          cells_addressed g [start_row..end_row - 1]
            (columns_to_check cols target_column_indices) \<and>
        (\<forall>r c. (r, c) \<notin> cells_addressed g [start_row..end_row - 1]
                            (columns_to_check cols target_column_indices)
           \<longrightarrow> cell g' r c = cell g r c)) \<and>
   (\<forall>r c. (r, c) \<in> cells_addressed g rows cl \<longrightarrow>
      (\<exists>col_idx\<in>set cl. int c = (if col_idx < 0 then col_idx + int (ncols g) else col_idx))) \<and>
   columns_to_check cols (Some (i # is)) = filter (\<lambda>col_idx. col_idx < cols) (i # is) \<and>
   columns_to_check cols (Some []) = [0..min cols 108 - 1] \<and>
   columns_to_check cols None = [0..min cols 108 - 1]"
proof (intro conjI allI impI)
  let ?A = "cells_addressed g [start_row..end_row - 1]
              (columns_to_check cols target_column_indices)"
  have sc: "scanned ?A ?A g
              (fst (process_chunk tm g start_row end_row cols pairs target_column_indices))"
    by (rule process_chunk_scanned)
  show "case process_chunk tm g start_row end_row cols pairs target_column_indices of
      (g', chunk_replacements, affected_rows) \<Rightarrow>
        set (reads g') = set (reads g) \<union> ?A \<and>
        set (writes g') \<subseteq> set (writes g) \<union> ?A \<and>
        (\<forall>r c. (r, c) \<notin> ?A \<longrightarrow> cell g' r c = cell g r c)"
    using sc by (auto simp: scanned_def split: prod.splits)
next
  fix r c
  assume "(r, c) \<in> cells_addressed g rows cl"
  then show "\<exists>col_idx\<in>set cl. int c = (if col_idx < 0 then col_idx + int (ncols g) else col_idx)"
    by (rule cells_addressed_column)
qed (simp_all add: columns_to_check_def)

theorem process_chunk_effective_columns_witness:
  "(case process_chunk plain_template (sheet_of [[VStr ''A'', VStr ''A'', VStr ''A'']])
           0 1 3 [(''A'', ''B'')] (Some [1]) of
      (g', chunk_replacements, affected_rows) \<Rightarrow>
        cell g' 0 0 = VStr ''A'' \<and> cell g' 0 2 = VStr ''A'' \<and> (0, 1) \<in> set (reads g')) \<and>
   (\<exists>col_idx\<in>set [1 :: int].
      int 1 = (if col_idx < 0
               then col_idx + int (ncols (sheet_of [[VStr ''A'', VStr ''A'', VStr ''A'']]))
               else col_idx))"
proof -
  let ?g = "sheet_of [[VStr ''A'', VStr ''A'', VStr ''A'']]"
  let ?A = "cells_addressed ?g [0..1 - 1] (columns_to_check 3 (Some [1]))"
  have n0: "(0, 0) \<notin> ?A" and n2: "(0, 2) \<notin> ?A" and m1: "(0, 1) \<in> ?A"
    by code_simp+
  have c0: "cell ?g 0 0 = VStr ''A''" and c2: "cell ?g 0 2 = VStr ''A''" by code_simp+
  have a: "(0, 1) \<in> cells_addressed ?g [0] [1]" by code_simp
  note T = process_chunk_effective_columns
    [where tm = plain_template and g = ?g and start_row = 0 and end_row = 1 and cols = 3
       and pairs = "[(''A'', ''B'')]" and target_column_indices = "Some [1]"
       and rows = "[0]" and cl = "[1]"]
  from T [THEN conjunct1] n0 n2 m1 c0 c2
  have "case process_chunk plain_template ?g 0 1 3 [(''A'', ''B'')] (Some [1]) of
      (g', chunk_replacements, affected_rows) \<Rightarrow>
        cell g' 0 0 = VStr ''A'' \<and> cell g' 0 2 = VStr ''A'' \<and> (0, 1) \<in> set (reads g')"
    by (auto split: prod.splits)
  moreover from T [THEN conjunct2, THEN conjunct1] a
  have "\<exists>col_idx\<in>set [1 :: int].
      int 1 = (if col_idx < 0 then col_idx + int (ncols ?g) else col_idx)"
    by blast
  ultimately show ?thesis by (rule conjI)
qed

text \<open>
  Claim C9 as stated fails. The spec \<open>C:A\<close> parses to the empty list, a restriction
  that is given and whose filtered set is empty, yet the engine reads all three columns and
  rewrites the first. The spec \<open>A,\<close> parses to the indices \<open>-1\<close> and \<open>0\<close>, both
  below the column count 1 that the engine is handed, yet the engine reads and rewrites the
  third column, which is no member of that set.
\<close>

theorem process_chunk_effective_columns_counterexample:
  "parse_column_range (Some ''C:A'') = Inr (Some []) \<and>
   filter (\<lambda>col_idx. col_idx < 3) [] = ([] :: int list) \<and>
   (case process_chunk plain_template (sheet_of [[VStr ''A'', VStr ''A'', VStr ''A'']])
           0 1 3 [(''A'', ''B'')] (Some []) of
      (g', chunk_replacements, affected_rows) \<Rightarrow>
        reads g' = [(0, 0), (0, 1), (0, 2)] \<and> cell g' 0 0 = VStr ''B'') \<and>
   parse_column_range (Some ''A,'') = Inr (Some [- 1, 0]) \<and>
   filter (\<lambda>col_idx. col_idx < 1) [- 1, 0] = [- 1, 0 :: int] \<and>
   (case process_chunk plain_template (sheet_of [[VStr ''A'', VStr ''A'', VStr ''A'']])
           0 1 1 [(''A'', ''B'')] (Some [- 1, 0]) of
      (g', chunk_replacements, affected_rows) \<Rightarrow>
        reads g' = [(0, 2), (0, 0)] \<and> cell g' 0 2 = VStr ''B'')"
  by code_simp

section \<open>The first rows of a sheet\<close>









section \<open>What the scans do to the rows under the cap\<close>























section \<open>Totals and counts of the rule engine\<close>

lemma process_rule_row_updates_are_sum:
  assumes "updates_are_sum ks st"
  shows "updates_are_sum ks (process_rule_row lookup search_col_idx update_col_idx row_idx st)"
proof -
  obtain g tu ud ar where st: "st = (g, tu, ud, ar)" by (metis prod.collapse)
  from assms st have inv: "tu = sum_list (map snd ud)" "fst ` set ud = ks"
    by (simp_all add: updates_are_sum_def)
  have "\<exists>g'. process_rule_row lookup search_col_idx update_col_idx row_idx st = (g', tu, ud, ar) \<or>
        (\<exists>g' rn ud' ar'. dict_add ud rn 1 = Inr ud' \<and>
           process_rule_row lookup search_col_idx update_col_idx row_idx st = (g', tu + 1, ud', ar'))"
    by (auto simp: st process_rule_row_def read_value_def Let_def
        split: sum.splits option.splits prod.splits)
  then show ?thesis
  proof (elim exE disjE conjE)
    fix g'
    assume "process_rule_row lookup search_col_idx update_col_idx row_idx st = (g', tu, ud, ar)"
    with inv show ?thesis by (simp add: updates_are_sum_def)
  next
    fix g' g'' rn ud' ar'
    assume da: "dict_add ud rn 1 = Inr ud'"
      and r: "process_rule_row lookup search_col_idx update_col_idx row_idx st =
                (g'', tu + 1, ud', ar')"
    from dict_add_Inr [OF da] inv have "tu + 1 = sum_list (map snd ud')" "fst ` set ud' = ks"
      by (simp_all, metis list.set_map)
    with r show ?thesis by (simp add: updates_are_sum_def)
  qed
qed

lemma sum_update_absent:
  "map_of d k = None \<Longrightarrow>
   sum_list (map snd (AList.update k w d)) = sum_list (map snd d) + (w :: int)"
  by (induction d) (auto split: if_splits)

lemma reset_counts:
  fixes ud :: counts
  assumes "\<forall>r\<in>set rule_group. map_of ud (gr_name r) = None \<or> map_of ud (gr_name r) = Some 0"
  shows "sum_list (map snd (fold (\<lambda>r. AList.update (gr_name r) 0) rule_group ud)) =
           sum_list (map snd ud) \<and>
         fst ` set (fold (\<lambda>r. AList.update (gr_name r) 0) rule_group ud) =
           fst ` set ud \<union> gr_name ` set rule_group"
  using assms
proof (induction rule_group arbitrary: ud)
  case Nil
  show ?case by simp
next
  case (Cons r rule_group)
  let ?ud1 = "AList.update (gr_name r) 0 ud"
  from Cons.prems have "map_of ud (gr_name r) = None \<or> map_of ud (gr_name r) = Some 0"
    by simp
  then have s1: "sum_list (map snd ?ud1) = sum_list (map snd ud)"
    using sum_update_absent [of ud "gr_name r" 0] sum_update_present [of ud "gr_name r" 0 0]
    by auto
  have k1: "fst ` set ?ud1 = insert (gr_name r) (fst ` set ud)" by (simp add: dom_update)
  have "\<forall>x\<in>set rule_group. map_of ?ud1 (gr_name x) = None \<or> map_of ?ud1 (gr_name x) = Some 0"
    using Cons.prems by (simp add: update_conv')
  from Cons.IH [OF this] s1 k1 show ?case by auto
qed

lemma process_group_updates_are_sum:
  assumes "updates_are_sum ks st" and "gr_name ` set (snd item) \<inter> ks = {}"
  shows "updates_are_sum (ks \<union> gr_name ` set (snd item)) (process_group n item st)"
proof -
  obtain g tu ud ar where st: "st = (g, tu, ud, ar)" by (metis prod.collapse)
  obtain search_col update_col rule_group where item: "item = ((search_col, update_col), rule_group)"
    by (metis prod.collapse)
  from assms(1) st have inv: "tu = sum_list (map snd ud)" "fst ` set ud = ks"
    by (simp_all add: updates_are_sum_def)
  have "\<forall>r\<in>set rule_group. map_of ud (gr_name r) = None"
  proof
    fix r assume "r \<in> set rule_group"
    with assms(2) inv(2) item have "gr_name r \<notin> fst ` set ud" by auto
    then show "map_of ud (gr_name r) = None" by (simp add: map_of_eq_None_iff)
  qed
  then have "\<forall>r\<in>set rule_group. map_of ud (gr_name r) = None \<or> map_of ud (gr_name r) = Some 0"
    by simp
  from reset_counts [OF this] inv
  have start: "updates_are_sum (ks \<union> gr_name ` set rule_group)
                 (g, tu, fold (\<lambda>r. AList.update (gr_name r) 0) rule_group ud, ar)"
    by (simp add: updates_are_sum_def)
  show ?thesis
    unfolding item st process_group_def prod.case Let_def snd_conv
    by (rule fold_invariant [where P = "updates_are_sum (ks \<union> gr_name ` set rule_group)"])
      (rule start, rule process_rule_row_updates_are_sum)
qed

lemma process_groups_updates_are_sum:
  assumes "updates_are_sum ks st"
    and "\<forall>item\<in>set groups. gr_name ` set (snd item) \<inter> ks = {}"
    and "sorted_wrt (\<lambda>x y. gr_name ` set (snd x) \<inter> gr_name ` set (snd y) = {}) groups"
  shows "\<exists>ks'. updates_are_sum ks' (fold (process_group n) groups st)"
  using assms
proof (induction groups arbitrary: ks st)
  case Nil
  then show ?case by auto
next
  case (Cons item groups)
  let ?ks1 = "ks \<union> gr_name ` set (snd item)"
  from Cons.prems(1,2) have s1: "updates_are_sum ?ks1 (process_group n item st)"
    by (intro process_group_updates_are_sum) simp_all
  have "\<forall>x\<in>set groups. gr_name ` set (snd item) \<inter> gr_name ` set (snd x) = {}"
    using Cons.prems(3) by simp
  moreover have "\<forall>x\<in>set groups. gr_name ` set (snd x) \<inter> ks = {}"
    using Cons.prems(2) by simp
  ultimately have "\<forall>x\<in>set groups. gr_name ` set (snd x) \<inter> ?ks1 = {}"
    by blast
  moreover have "sorted_wrt (\<lambda>x y. gr_name ` set (snd x) \<inter> gr_name ` set (snd y) = {}) groups"
    using Cons.prems(3) by simp
  ultimately show ?case using Cons.IH [OF s1] by simp
qed

lemma set_update_subset: "set (AList.update k v al) \<subseteq> insert (k, v) (set al)"
  by (induction al) auto

lemma groups_from_add_rule:
  assumes "groups_from R grouped_rules"
  shows "groups_from (insert r R) (add_rule r grouped_rules)"
proof -
  define key where "key = (r_search_column r, r_update_column r)"
  define entry where "entry = \<lparr>gr_name = rule_name_of r,
                  gr_search_value = py_lower (py_strip (r_search_value r)),
                  gr_target_value = r_target_value r\<rparr>"
  define old where
    "old = (case map_of grouped_rules key of None \<Rightarrow> [] | Some rule_group \<Rightarrow> rule_group)"
  have ar: "add_rule r grouped_rules = AList.update key (old @ [entry]) grouped_rules"
    by (simp add: add_rule_def Let_def rule_name_of_def key_def entry_def old_def)
  have en: "gr_name entry = rule_name_of r" by (simp add: entry_def)
  from assms have d: "distinct (map fst grouped_rules)"
    and o: "\<forall>item\<in>set grouped_rules. \<forall>e\<in>set (snd item).
              \<exists>r\<in>R. (r_search_column r, r_update_column r) = fst item \<and>
                     gr_name e = rule_name_of r"
    by (simp_all add: groups_from_def)
  have old: "\<exists>r'\<in>R. (r_search_column r', r_update_column r') = key \<and>
                   gr_name e = rule_name_of r'" if "e \<in> set old" for e
  proof (cases "map_of grouped_rules key")
    case None
    with that show ?thesis by (simp add: old_def)
  next
    case (Some rule_group)
    then have "(key, rule_group) \<in> set grouped_rules" by (rule map_of_SomeD)
    moreover from that Some have "e \<in> set rule_group" by (simp add: old_def)
    ultimately show ?thesis using o by force
  qed
  have "\<exists>r'\<in>insert r R. (r_search_column r', r_update_column r') = fst item \<and>
                 gr_name e = rule_name_of r'"
    if "item \<in> set (add_rule r grouped_rules)" "e \<in> set (snd item)" for item e
  proof -
    from that(1) set_update_subset [of key "old @ [entry]" grouped_rules]
    have "item = (key, old @ [entry]) \<or> item \<in> set grouped_rules"
      unfolding ar by blast
    then show ?thesis
    proof
      assume i: "item = (key, old @ [entry])"
      with that(2) have "e \<in> set old \<or> e = entry" by auto
      then show ?thesis
      proof
        assume "e \<in> set old"
        from old [OF this] i show ?thesis by auto
      next
        assume "e = entry"
        with i en show ?thesis by (simp add: key_def)
      qed
    next
      assume "item \<in> set grouped_rules"
      with o that(2) show ?thesis by blast
    qed
  qed
  moreover have "distinct (map fst (add_rule r grouped_rules))"
    unfolding ar using d by (rule distinct_update)
  ultimately show ?thesis by (simp add: groups_from_def)
qed

lemma groups_from_fold:
  "groups_from R grouped_rules \<Longrightarrow> groups_from (R \<union> set rules) (fold add_rule rules grouped_rules)"
proof (induction rules arbitrary: R grouped_rules)
  case Nil
  then show ?case by simp
next
  case (Cons r rules)
  from Cons.IH [OF groups_from_add_rule [OF Cons.prems, of r]] show ?case by simp
qed

text \<open>
  In the rule engine the total is the sum of the counts by rule name whenever no rule name
  is shared by rules of different column pairs.
\<close>

lemma rule_engine_total_is_sum_for_distinct_names:
  assumes names: "\<forall>r1\<in>set rules. \<forall>r2\<in>set rules. rule_name_of r1 = rule_name_of r2 \<longrightarrow>
             (r_search_column r1, r_update_column r1) = (r_search_column r2, r_update_column r2)"
    and res: "process_sheet_with_rules sheet rules max_rows_to_process =
                (sheet', total_updates, update_details)"
  shows "total_updates = sum_list (map snd update_details)"
proof (cases sheet)
  case None
  with res show ?thesis by (simp add: process_sheet_with_rules_def)
next
  case (Some g)
  let ?groups = "fold add_rule rules []"
  let ?names = "\<lambda>item :: (string \<times> string) \<times> grouped_rule list. gr_name ` set (snd item)"
  have "groups_from ({} \<union> set rules) ?groups"
    by (rule groups_from_fold) (simp add: groups_from_def)
  then have d: "distinct (map fst ?groups)"
    and o: "\<forall>item\<in>set ?groups. \<forall>e\<in>set (snd item).
              \<exists>r\<in>set rules. (r_search_column r, r_update_column r) = fst item \<and>
                     gr_name e = rule_name_of r"
    by (simp_all add: groups_from_def)
  have disj: "?names x \<inter> ?names y = {}"
    if "x \<in> set ?groups" "y \<in> set ?groups" "fst x \<noteq> fst y" for x y
  proof (rule ccontr)
    assume "?names x \<inter> ?names y \<noteq> {}"
    then obtain ex ey where ex: "ex \<in> set (snd x)" and ey: "ey \<in> set (snd y)"
      and eq: "gr_name ex = gr_name ey" by auto
    from o that(1) ex obtain rx where rx: "rx \<in> set rules"
      "(r_search_column rx, r_update_column rx) = fst x" "gr_name ex = rule_name_of rx" by blast
    from o that(2) ey obtain ry where ry: "ry \<in> set rules"
      "(r_search_column ry, r_update_column ry) = fst y" "gr_name ey = rule_name_of ry" by blast
    from names rx(1) ry(1) eq rx(3) ry(3) have
      "(r_search_column rx, r_update_column rx) = (r_search_column ry, r_update_column ry)"
      by metis
    with rx(2) ry(2) that(3) show False by simp
  qed
  have sw: "sorted_wrt (\<lambda>x y. ?names x \<inter> ?names y = {}) ?groups"
    unfolding sorted_wrt_iff_nth_less
  proof (intro allI impI)
    fix i j
    assume ij: "i < j" "j < length ?groups"
    then have "fst (?groups ! i) \<noteq> fst (?groups ! j)"
      using d by (simp add: distinct_conv_nth)
    with ij show "?names (?groups ! i) \<inter> ?names (?groups ! j) = {}"
      by (intro disj) simp_all
  qed
  have "\<exists>ks'. updates_are_sum ks'
          (fold (process_group (min (int (nrows g)) max_rows_to_process)) ?groups (g, 0, [], {}))"
    by (rule process_groups_updates_are_sum [where ks = "{}"])
      (simp_all add: updates_are_sum_def sw)
  with res Some show ?thesis
    by (auto simp: process_sheet_with_rules_def Let_def updates_are_sum_def split: prod.splits)
qed

end
